theory Spec2Isabelle
  imports
    Complex_Main
    "HOL-Library.AList"
    "HOL-Library.Char_ord"
    "HOL-Library.FSet"
    "HOL-Library.List_Lexorder"
    "HOL-Library.Product_Lexorder"
begin

section \<open>Values of the catalog: parsed JSON and YAML documents\<close>

text \<open>
  A parsed OpenAPI document is a tree of Python values. A mapping keeps the insertion
  order of its keys (the order matters wherever the source iterates a \<open>dict\<close>), so a
  mapping is an association list; \<open>None\<close> and a JSON \<open>null\<close> are the same Python value,
  \<open>JNull\<close>. Strings are lists of code points below 256, compared as Python compares
  \<open>str\<close> (lexicographically by code point). A finite float is the rational it denotes.
\<close>

datatype json =
    JNull
  | JBool bool
  | JInt int
  | JFloat rat
  | JStr string
  | JArr "json list"
  | JObj "(string \<times> json) list"

datatype py_error = TypeError | KeyError | IndexError | AttributeError | ValueError | OSError | OperationalError

text \<open>\<open>d.get(k)\<close> on a mapping: the value, or \<open>None\<close> when the key is missing.\<close>

definition dict_get :: "(string \<times> json) list \<Rightarrow> string \<Rightarrow> json" where
  "dict_get d k = (case map_of d k of None \<Rightarrow> JNull | Some v \<Rightarrow> v)"

text \<open>\<open>k in d\<close> on a mapping.\<close>

definition dict_has :: "(string \<times> json) list \<Rightarrow> string \<Rightarrow> bool" where
  "dict_has d k = (map_of d k \<noteq> None)"

text \<open>\<open>d[k] = v\<close>: an existing key keeps its position, a new key goes last.\<close>

definition dict_set :: "string \<Rightarrow> json \<Rightarrow> (string \<times> json) list \<Rightarrow> (string \<times> json) list" where
  "dict_set k v d = AList.update k v d"

text \<open>Python's truth value of an object (\<open>bool(x)\<close>, \<open>if x:\<close>).\<close>

fun truthy :: "json \<Rightarrow> bool" where
  "truthy JNull = False"
| "truthy (JBool b) = b"
| "truthy (JInt i) = (i \<noteq> 0)"
| "truthy (JFloat r) = (r \<noteq> 0)"
| "truthy (JStr s) = (s \<noteq> [])"
| "truthy (JArr xs) = (xs \<noteq> [])"
| "truthy (JObj d) = (d \<noteq> [])"

section \<open>Operations and their endpoint identifiers (model.py, engine.py)\<close>

record Operation =
  spec_id :: string
  operation_id :: "string option"
  op_method :: string
  path :: string
  summary :: json
  description :: json
  tags :: "string list"
  operation :: "(string \<times> json) list"

text \<open>\<open>Operation.op_key\<close>: \<open>if self.operation_id:\<close> is false for \<open>None\<close> and for \<open>""\<close>.\<close>

definition op_key :: "Operation \<Rightarrow> string" where
  "op_key op =
     (case operation_id op of
        Some oid \<Rightarrow>
          (if oid \<noteq> [] then spec_id op @ '':'' @ oid
           else spec_id op @ '':'' @ op_method op @ '':'' @ path op)
      | None \<Rightarrow> spec_id op @ '':'' @ op_method op @ '':'' @ path op)"

definition list_http_methods :: "string list" where
  "list_http_methods =
     [''get'', ''post'', ''put'', ''patch'', ''delete'', ''options'', ''head'', ''trace'']"

text \<open>
  \<open>CatalogEngine._merge_parameters\<close>: \<open>merged\<close> is a dict keyed by \<open>(name, in)\<close>; the
  path-level list is ingested first, the operation-level list second, so the latter
  overwrites. The result is ordered by \<open>(in, name)\<close>.
\<close>

fun ingest :: "json list \<Rightarrow> ((string \<times> string) \<times> json) list \<Rightarrow> ((string \<times> string) \<times> json) list" where
  "ingest [] merged = merged"
| "ingest (param # params) merged =
     (case param of
        JObj p \<Rightarrow>
          (case (dict_get p ''name'', dict_get p ''in'') of
             (JStr name, JStr location) \<Rightarrow> ingest params (AList.update (name, location) param merged)
           | _ \<Rightarrow> ingest params merged)
      | _ \<Rightarrow> ingest params merged)"

definition ingest_any :: "json \<Rightarrow> ((string \<times> string) \<times> json) list \<Rightarrow> ((string \<times> string) \<times> json) list" where
  "ingest_any params merged = (case params of JArr ps \<Rightarrow> ingest ps merged | _ \<Rightarrow> merged)"

definition merge_parameters :: "json \<Rightarrow> json \<Rightarrow> json list" where
  "merge_parameters path_params op_params =
     (let merged = ingest_any op_params (ingest_any path_params [])
      in map snd (sort_key (\<lambda>item. (snd (fst item), fst (fst item))) merged))"

text \<open>
  \<open>sorted([tag for tag in tags if isinstance(tag, str)]) if tags else []\<close>: a truthy
  value that is not iterable (a number, \<open>True\<close>) raises \<open>TypeError\<close>; iterating a string
  yields its characters, iterating a mapping its keys.
\<close>

definition tags_list :: "json \<Rightarrow> py_error + string list" where
  "tags_list t =
     (if \<not> truthy t then Inr []
      else (case t of
              JArr xs \<Rightarrow> Inr (sort (concat (map (\<lambda>x. case x of JStr s \<Rightarrow> [s] | _ \<Rightarrow> []) xs)))
            | JStr s \<Rightarrow> Inr (sort (map (\<lambda>c. [c]) s))
            | JObj d \<Rightarrow> Inr (sort (map fst d))
            | _ \<Rightarrow> Inl TypeError))"

text \<open>The body of the inner loop of \<open>_extract_operations\<close> for one mapping-valued method entry.\<close>

definition make_operation :: "string \<Rightarrow> string \<Rightarrow> json \<Rightarrow> string \<Rightarrow> (string \<times> json) list \<Rightarrow> py_error + Operation" where
  "make_operation sid pth path_parameters meth opn =
     (let merged_parameters = merge_parameters path_parameters (dict_get opn ''parameters'');
          operation_payload =
            (if merged_parameters \<noteq> [] then dict_set ''parameters'' (JArr merged_parameters) opn else opn);
          oid = (case dict_get opn ''operationId'' of JStr s \<Rightarrow> Some s | _ \<Rightarrow> None)
      in case tags_list (dict_get opn ''tags'') of
           Inl e \<Rightarrow> Inl e
         | Inr tgs \<Rightarrow>
             Inr \<lparr> spec_id = sid, operation_id = oid, op_method = meth, path = pth,
                   summary = dict_get opn ''summary'', description = dict_get opn ''description'',
                   tags = tgs, operation = operation_payload \<rparr>)"

fun extract_methods :: "string \<Rightarrow> string \<Rightarrow> (string \<times> json) list \<Rightarrow> string list \<Rightarrow> py_error + Operation list" where
  "extract_methods sid pth path_item [] = Inr []"
| "extract_methods sid pth path_item (m # ms) =
     (case dict_get path_item m of
        JObj opn \<Rightarrow>
          (case make_operation sid pth (dict_get path_item ''parameters'') m opn of
             Inl e \<Rightarrow> Inl e
           | Inr op \<Rightarrow>
               (case extract_methods sid pth path_item ms of
                  Inl e \<Rightarrow> Inl e
                | Inr ops \<Rightarrow> Inr (op # ops)))
      | _ \<Rightarrow> extract_methods sid pth path_item ms)"

fun extract_paths :: "string \<Rightarrow> (string \<times> json) list \<Rightarrow> py_error + Operation list" where
  "extract_paths sid [] = Inr []"
| "extract_paths sid ((pth, path_item) # rest) =
     (case path_item of
        JObj item \<Rightarrow>
          (case extract_methods sid pth item list_http_methods of
             Inl e \<Rightarrow> Inl e
           | Inr ops \<Rightarrow>
               (case extract_paths sid rest of
                  Inl e \<Rightarrow> Inl e
                | Inr ops' \<Rightarrow> Inr (ops @ ops')))
      | _ \<Rightarrow> extract_paths sid rest)"

text \<open>
  \<open>CatalogEngine._extract_operations\<close>: paths are visited in ascending order of the path
  string, the result is ordered by \<open>(path, method, operation_id or "")\<close>.
\<close>

definition extract_operations :: "string \<Rightarrow> json \<Rightarrow> py_error + Operation list" where
  "extract_operations sid spec =
     (case spec of
        JObj s \<Rightarrow>
          (case dict_get s ''paths'' of
             JObj paths \<Rightarrow>
               (case extract_paths sid (sort_key fst paths) of
                  Inl e \<Rightarrow> Inl e
                | Inr ops \<Rightarrow>
                    Inr (sort_key
                          (\<lambda>op. (path op, op_method op, (case operation_id op of Some s \<Rightarrow> s | None \<Rightarrow> [])))
                          ops))
           | _ \<Rightarrow> Inr [])
      | _ \<Rightarrow> Inr [])"

text \<open>
  The rule that ties an operation's endpoint id to the \<open>operationId\<close> entry of its raw mapping.
\<close>

definition op_key_rule :: "string \<Rightarrow> Operation \<Rightarrow> bool" where
  "op_key_rule sid op =
     (spec_id op = sid \<and>
      (case dict_get (operation op) ''operationId'' of
         JStr s \<Rightarrow>
           operation_id op = Some s \<and>
           op_key op = (if s = [] then sid @ '':'' @ op_method op @ '':'' @ path op else sid @ '':'' @ s)
       | _ \<Rightarrow> operation_id op = None \<and> op_key op = sid @ '':'' @ op_method op @ '':'' @ path op))"


section \<open>Query sanitization and lexical search (index.py)\<close>

text \<open>
  \<open>str.isspace\<close> and \<open>str.isalnum\<close> on one code point below 256, as the Unicode
  database classifies it: the ASCII white space, the separators \<open>0x1C\<close> to \<open>0x1F\<close>,
  \<open>NEL\<close> and the no-break space are white space; the ASCII letters and digits, the
  Latin-1 letters, the superscript digits and the vulgar fractions are alphanumeric.
\<close>

definition isspace :: "char \<Rightarrow> bool" where
  "isspace c = (of_char c \<in> {9, 10, 11, 12, 13, 28, 29, 30, 31, 32, 133, 160 :: nat})"

definition isalnum :: "char \<Rightarrow> bool" where
  "isalnum c =
     (let n = (of_char c :: nat)
      in (48 \<le> n \<and> n \<le> 57) \<or> (65 \<le> n \<and> n \<le> 90) \<or> (97 \<le> n \<and> n \<le> 122)
         \<or> n \<in> {170, 178, 179, 181, 185, 186, 188, 189, 190}
         \<or> (192 \<le> n \<and> n \<le> 214) \<or> (216 \<le> n \<and> n \<le> 246) \<or> 248 \<le> n)"

text \<open>\<open>str.strip()\<close>: leading and trailing white space removed.\<close>

fun rstrip :: "string \<Rightarrow> string" where
  "rstrip [] = []"
| "rstrip (c # cs) = (let r = rstrip cs in if r = [] \<and> isspace c then [] else c # r)"

definition lstrip :: "string \<Rightarrow> string" where
  "lstrip s = dropWhile isspace s"

definition py_strip :: "string \<Rightarrow> string" where
  "py_strip s = rstrip (lstrip s)"

text \<open>
  \<open>str.split()\<close> with no separator: the maximal runs of characters that are not white
  space, in order; \<open>cur\<close> is the run being read.
\<close>

fun split_from :: "string \<Rightarrow> string \<Rightarrow> string list" where
  "split_from cur [] = (if cur = [] then [] else [cur])"
| "split_from cur (c # cs) =
     (if isspace c then (if cur = [] then split_from [] cs else cur # split_from [] cs)
      else split_from (cur @ [c]) cs)"

definition py_split :: "string \<Rightarrow> string list" where
  "py_split s = split_from [] s"

text \<open>\<open>sep.join(parts)\<close>.\<close>

fun py_join :: "string \<Rightarrow> string list \<Rightarrow> string" where
  "py_join sep [] = []"
| "py_join sep [x] = x"
| "py_join sep (x # y # ys) = x @ sep @ py_join sep (y # ys)"

definition clean_char :: "char \<Rightarrow> char" where
  "clean_char ch = (if isalnum ch \<or> isspace ch then ch else CHR '' '')"

definition sanitize_fts_query :: "string \<Rightarrow> string" where
  "sanitize_fts_query query =
     (let cleaned = map clean_char (py_strip query);
          cleaned' = py_join '' '' (py_split cleaned)
      in if cleaned' = [] then [] else [CHR 0x22] @ cleaned' @ [CHR 0x22])"

text \<open>
  A row of the full-text tables as the queries select it; \<open>score\<close> and \<open>snippet\<close> are
  columns of the search queries only.
\<close>

record op_row =
  row_id :: string
  row_spec_id :: string
  row_operation_id :: json
  row_method :: string
  row_path :: string
  row_summary :: json
  row_description :: json
  row_tags :: json
  row_score :: "json option"
  row_snippet :: "json option"

record schema_row =
  srow_spec_id :: string
  srow_schema_name :: string
  srow_description :: json

definition row_to_operation_match :: "op_row \<Rightarrow> json" where
  "row_to_operation_match row =
     JObj [(''endpointId'', JStr (row_id row)),
           (''specId'', JStr (row_spec_id row)),
           (''operationId'', row_operation_id row),
           (''method'', JStr (row_method row)),
           (''path'', JStr (row_path row)),
           (''summary'', row_summary row),
           (''description'', row_description row),
           (''tags'', (case row_tags row of JStr t \<Rightarrow> JArr (map JStr (py_split t)) | _ \<Rightarrow> JArr [])),
           (''score'', (case row_score row of Some s \<Rightarrow> s | None \<Rightarrow> JNull)),
           (''matchSnippet'', (case row_snippet row of Some s \<Rightarrow> s | None \<Rightarrow> JNull))]"

definition row_to_schema_match :: "schema_row \<Rightarrow> json" where
  "row_to_schema_match row =
     JObj [(''specId'', JStr (srow_spec_id row)),
           (''schemaName'', JStr (srow_schema_name row)),
           (''description'', srow_description row)]"

text \<open>
  \<open>CatalogIndex.search_operations\<close> and \<open>search_schemas\<close>. The full-text engine is the
  parameter \<open>fts\<close>: it receives the \<open>MATCH\<close> argument, the spec filter (present when
  \<open>spec_id\<close> is truthy) and the limit, and returns the selected rows in order.
\<close>

definition spec_filter :: "string option \<Rightarrow> string option" where
  "spec_filter sid = (case sid of Some s \<Rightarrow> (if s \<noteq> [] then Some s else None) | None \<Rightarrow> None)"

definition search_operations ::
  "(string \<Rightarrow> string option \<Rightarrow> int \<Rightarrow> op_row list) \<Rightarrow> string \<Rightarrow> string option \<Rightarrow> int \<Rightarrow> json list" where
  "search_operations fts query sid limit =
     (let q = sanitize_fts_query query
      in if q = [] then [] else map row_to_operation_match (fts q (spec_filter sid) limit))"

definition search_schemas ::
  "(string \<Rightarrow> string option \<Rightarrow> int \<Rightarrow> schema_row list) \<Rightarrow> string \<Rightarrow> string option \<Rightarrow> int \<Rightarrow> json list" where
  "search_schemas fts query sid limit =
     (let q = sanitize_fts_query query
      in if q = [] then [] else map row_to_schema_match (fts q (spec_filter sid) limit))"

text \<open>
  The normalization in the words of the catalog's description, to compare with the
  source: every character that is neither alphanumeric nor white space becomes a space,
  every run of white space becomes one space (\<open>prev\<close> tells whether the previous
  character was white space), and the result is trimmed.
\<close>

definition replace_specials :: "string \<Rightarrow> string" where
  "replace_specials s = map (\<lambda>ch. if \<not> isalnum ch \<and> \<not> isspace ch then CHR '' '' else ch) s"

fun collapse_ws :: "bool \<Rightarrow> string \<Rightarrow> string" where
  "collapse_ws prev [] = []"
| "collapse_ws prev (c # cs) =
     (if isspace c then (if prev then collapse_ws True cs else CHR '' '' # collapse_ws True cs)
      else c # collapse_ws False cs)"

definition normalize_query :: "string \<Rightarrow> string" where
  "normalize_query q = py_strip (collapse_ws False (replace_specials q))"

section \<open>Spec discovery and spec ids (ingest.py)\<close>

record SpecFile =
  sf_path :: string
  sf_relative_path :: string
  sf_raw :: json
  sf_spec_id :: string

text \<open>\<open>os.path.basename\<close> and the root part of \<open>os.path.splitext\<close> on a POSIX path.\<close>

definition basename :: "string \<Rightarrow> string" where
  "basename p = rev (takeWhile (\<lambda>c. c \<noteq> CHR ''/'') (rev p))"

definition splitext_root :: "string \<Rightarrow> string" where
  "splitext_root name =
     (let r = dropWhile (\<lambda>c. c \<noteq> CHR ''.'') (rev name)
      in if r = [] then name
         else (let stem = rev (tl r)
               in if (\<exists>c\<in>set stem. c \<noteq> CHR ''.'') then stem else name))"

definition default_spec_id :: "string \<Rightarrow> string" where
  "default_spec_id p = splitext_root (basename p)"

definition spec_id_override :: "json \<Rightarrow> string option" where
  "spec_id_override raw =
     (case raw of
        JObj r \<Rightarrow>
          (case dict_get r ''info'' of
             JObj info \<Rightarrow>
               (case dict_get info ''x-spec-id'' of
                  JStr override \<Rightarrow> (if py_strip override \<noteq> [] then Some (py_strip override) else None)
                | _ \<Rightarrow> None)
           | _ \<Rightarrow> None)
      | _ \<Rightarrow> None)"

text \<open>The decimal digits of a natural number, as \<open>str(n)\<close> and an f-string write them.\<close>

function str_nat :: "nat \<Rightarrow> string" where
  "str_nat n = (if n < 10 then [char_of (48 + n)] else str_nat (n div 10) @ [char_of (48 + n mod 10)])"
  by pat_completeness auto
termination
  by (relation "measure id") auto

declare str_nat.simps [simp del]

definition suffixed :: "string \<Rightarrow> nat \<Rightarrow> string" where
  "suffixed base_id suffix = base_id @ ''-'' @ str_nat suffix"

lemma str_nat_nonempty: "str_nat n \<noteq> []"
  by (subst str_nat.simps) simp

lemma last_str_nat: "last (str_nat n) = char_of (48 + n mod 10)"
  by (subst str_nat.simps) (simp add: str_nat_nonempty)

lemma butlast_str_nat: "butlast (str_nat n) = (if n < 10 then [] else str_nat (n div 10))"
  by (subst str_nat.simps) (simp add: str_nat_nonempty)

lemma digit_char_inj: "a < 10 \<Longrightarrow> b < 10 \<Longrightarrow> (char_of (48 + a) :: char) = char_of (48 + b) \<Longrightarrow> a = (b::nat)"
proof -
  assume a: "a < 10" and b: "b < 10" and e: "(char_of (48 + a) :: char) = char_of (48 + b)"
  have "of_char (char_of (48 + a) :: char) = (of_char (char_of (48 + b) :: char) :: nat)"
    using e by simp
  then show "a = b"
    using a b by (simp add: of_char_of)
qed

lemma str_nat_inj: "str_nat n = str_nat m \<Longrightarrow> n = m"
proof (induction n arbitrary: m rule: str_nat.induct)
  case (1 n)
  have l: "n mod 10 = m mod 10"
    using arg_cong [OF "1.prems", of last] digit_char_inj [of "n mod 10" "m mod 10"]
    by (simp add: last_str_nat)
  have b: "(if n < 10 then [] else str_nat (n div 10)) = (if m < 10 then [] else str_nat (m div 10))"
    using arg_cong [OF "1.prems", of butlast] by (simp only: butlast_str_nat)
  show ?case
  proof (cases "n < 10")
    case True
    with b have "m < 10"
      using str_nat_nonempty [of "m div 10"] by (auto split: if_splits)
    with True l show ?thesis by simp
  next
    case False
    with b have m: "\<not> m < 10" and e: "str_nat (n div 10) = str_nat (m div 10)"
      using str_nat_nonempty [of "n div 10"] by (auto split: if_splits)
    from "1.IH" [OF False e] have "n div 10 = m div 10" .
    with l show ?thesis
      by (metis div_mult_mod_eq)
  qed
qed

lemma suffixed_inj: "suffixed b n = suffixed b m \<Longrightarrow> n = m"
  by (simp add: suffixed_def str_nat_inj)

text \<open>
  \<open>_ensure_unique\<close>: the \<open>while\<close> loop counts up from 2 until the suffixed id is unused.
\<close>

function next_free :: "string \<Rightarrow> string fset \<Rightarrow> nat \<Rightarrow> nat" where
  "next_free base_id used suffix =
     (if suffixed base_id suffix |\<in>| used then next_free base_id used (suffix + 1) else suffix)"
  by pat_completeness auto
termination
proof (relation "measure (\<lambda>(b, used, suffix). card {k. suffix \<le> k \<and> suffixed b k |\<in>| used})")
  show "wf (measure (\<lambda>(b, used, suffix). card {k. suffix \<le> k \<and> suffixed b k |\<in>| used}))"
    by simp
next
  fix base_id :: string and used :: "string fset" and suffix :: nat
  assume m: "suffixed base_id suffix |\<in>| used"
  have inj: "inj (suffixed base_id)"
    by (rule injI) (rule suffixed_inj)
  have fin: "finite {k. suffixed base_id k |\<in>| used}"
    using finite_vimageI [OF finite_fset inj, of used] by (simp add: vimage_def)
  have f: "finite {k. suffix \<le> k \<and> suffixed base_id k |\<in>| used}"
    by (rule finite_subset [OF _ fin]) auto
  let ?A = "{k. suffix \<le> k \<and> suffixed base_id k |\<in>| used}"
  let ?B = "{k. suffix + 1 \<le> k \<and> suffixed base_id k |\<in>| used}"
  have sub: "?B \<subseteq> ?A"
    by auto
  have "suffix \<in> ?A"
    using m by simp
  moreover have "suffix \<notin> ?B"
    by simp
  ultimately have "?B \<noteq> ?A"
    by blast
  with sub have "?B \<subset> ?A"
    by blast
  from psubset_card_mono [OF f this]
  show "((base_id, used, suffix + 1), (base_id, used, suffix))
        \<in> measure (\<lambda>(b, used, suffix). card {k. suffix \<le> k \<and> suffixed b k |\<in>| used})"
    by simp
qed

declare next_free.simps [simp del]

definition ensure_unique :: "string \<Rightarrow> string fset \<Rightarrow> string" where
  "ensure_unique base_id used =
     (if base_id |\<notin>| used then base_id else suffixed base_id (next_free base_id used 2))"

text \<open>
  \<open>build_spec_files\<close>. The spec directory is the parameter \<open>files\<close>: the discovered
  paths in discovery order (ascending), each with what \<open>load_raw_spec\<close> returns for it,
  a parse error or the parsed document; \<open>relpath\<close> stands for \<open>os.path.relpath\<close> against
  the spec directory.
\<close>

definition base_spec_id :: "string \<Rightarrow> json \<Rightarrow> string" where
  "base_spec_id p raw = (case spec_id_override raw of Some override \<Rightarrow> override | None \<Rightarrow> default_spec_id p)"

fun build_from :: "(string \<Rightarrow> string) \<Rightarrow> (string \<times> (py_error + json)) list \<Rightarrow> string fset \<Rightarrow> py_error + SpecFile list" where
  "build_from relpath [] used_ids = Inr []"
| "build_from relpath ((p, loaded) # files) used_ids =
     (case loaded of
        Inl e \<Rightarrow> Inl e
      | Inr raw \<Rightarrow>
          (let sid = ensure_unique (base_spec_id p raw) used_ids
           in case build_from relpath files (finsert sid used_ids) of
                Inl e \<Rightarrow> Inl e
              | Inr specs \<Rightarrow>
                  Inr (\<lparr> sf_path = p, sf_relative_path = relpath p, sf_raw = raw, sf_spec_id = sid \<rparr> # specs)))"

definition build_spec_files :: "(string \<Rightarrow> string) \<Rightarrow> (string \<times> (py_error + json)) list \<Rightarrow> py_error + SpecFile list" where
  "build_spec_files relpath files = build_from relpath files {||}"

text \<open>
  The id a file receives, given the ids \<open>earlier\<close> of the files discovered before it:
  the base id is the trimmed \<open>info.x-spec-id\<close> when that is a string with something left
  after trimming, else the file's base name without extension; a base id already taken
  gets the least suffix \<open>-k\<close>, \<open>k \<ge> 2\<close>, that is free.
\<close>

definition x_spec_id :: "json \<Rightarrow> json" where
  "x_spec_id raw =
     (case raw of
        JObj r \<Rightarrow> (case dict_get r ''info'' of JObj info \<Rightarrow> dict_get info ''x-spec-id'' | _ \<Rightarrow> JNull)
      | _ \<Rightarrow> JNull)"

definition spec_id_assigned :: "string \<times> (py_error + json) \<Rightarrow> string list \<Rightarrow> string \<Rightarrow> bool" where
  "spec_id_assigned file earlier sid =
     (case snd file of
        Inl e \<Rightarrow> False
      | Inr raw \<Rightarrow>
          (let base = (case x_spec_id raw of
                         JStr v \<Rightarrow> (if py_strip v \<noteq> [] then py_strip v else default_spec_id (fst file))
                       | _ \<Rightarrow> default_spec_id (fst file))
           in if base \<notin> set earlier then sid = base
              else (\<exists>k\<ge>2. sid = base @ ''-'' @ str_nat k \<and> sid \<notin> set earlier
                         \<and> (\<forall>j. 2 \<le> j \<and> j < k \<longrightarrow> base @ ''-'' @ str_nat j \<in> set earlier))))"


section \<open>Retrieval fusion (engine.py)\<close>

text \<open>
  The float arithmetic \<open>_rrf_merge\<close> uses is a parameter: the rounding of a decimal
  literal (\<open>0.0\<close>, \<open>0.7\<close>, \<open>0.3\<close>), float addition, the division of a float by an
  integer and the unary minus. Floats are compared by a linear order (no score is a NaN).
\<close>

record 'f float_ops =
  f_lit :: "rat \<Rightarrow> 'f"
  f_add :: "'f \<Rightarrow> 'f \<Rightarrow> 'f"
  f_div :: "'f \<Rightarrow> int \<Rightarrow> 'f"
  f_neg :: "'f \<Rightarrow> 'f"

text \<open>
  One \<open>for rank, endpoint_id in enumerate(ids, start=1)\<close> loop:
  \<open>scores[endpoint_id] = scores.get(endpoint_id, 0.0) + weight / (k + rank)\<close>.
\<close>

fun accumulate :: "'f float_ops \<Rightarrow> 'f \<Rightarrow> int \<Rightarrow> int \<Rightarrow> string list \<Rightarrow> (string \<times> 'f) list \<Rightarrow> (string \<times> 'f) list" where
  "accumulate ops weight k rank [] scores = scores"
| "accumulate ops weight k rank (endpoint_id # ids) scores =
     accumulate ops weight k (rank + 1) ids
       (AList.update endpoint_id
          (f_add ops (case map_of scores endpoint_id of None \<Rightarrow> f_lit ops 0 | Some s \<Rightarrow> s)
                     (f_div ops weight (k + rank)))
          scores)"

text \<open>\<open>xs[:limit]\<close>: a negative limit counts from the end.\<close>

definition slice_to :: "int \<Rightarrow> 'a list \<Rightarrow> 'a list" where
  "slice_to limit xs = (if 0 \<le> limit then take (nat limit) xs else take (length xs - nat (- limit)) xs)"

definition rrf_merge ::
  "('f::linorder) float_ops \<Rightarrow> string list \<Rightarrow> string list \<Rightarrow> int \<Rightarrow> int \<Rightarrow> 'f \<Rightarrow> 'f \<Rightarrow> string list" where
  "rrf_merge ops fts_ids semantic_ids limit k weight_fts weight_sem =
     (let scores = accumulate ops weight_sem k 1 semantic_ids (accumulate ops weight_fts k 1 fts_ids []);
          ranked = sort_key (\<lambda>item. (f_neg ops (snd item), fst item)) scores
      in map fst (slice_to limit ranked))"

text \<open>The call of \<open>_search_operations\<close>: \<open>k\<close> and the weights take their defaults.\<close>

definition rrf_merge_default :: "('f::linorder) float_ops \<Rightarrow> string list \<Rightarrow> string list \<Rightarrow> int \<Rightarrow> string list" where
  "rrf_merge_default ops fts_ids semantic_ids limit =
     rrf_merge ops fts_ids semantic_ids limit 60 (f_lit ops (7 / 10)) (f_lit ops (3 / 10))"

text \<open>
  The fusion in the words of the catalog's description: the rank of an id in a list is
  its position counted from 1, a list that lacks the id contributes \<open>0\<close>, and the score
  is the sum of the two contributions.
\<close>

fun rank_from :: "int \<Rightarrow> string list \<Rightarrow> string \<Rightarrow> int option" where
  "rank_from r [] x = None"
| "rank_from r (y # ys) x = (if x = y then Some r else rank_from (r + 1) ys x)"

definition contribution :: "'f float_ops \<Rightarrow> 'f \<Rightarrow> int \<Rightarrow> string list \<Rightarrow> string \<Rightarrow> 'f" where
  "contribution ops weight k ids x =
     (case rank_from 1 ids x of None \<Rightarrow> f_lit ops 0 | Some r \<Rightarrow> f_div ops weight (k + r))"

definition rrf_score :: "'f float_ops \<Rightarrow> string list \<Rightarrow> string list \<Rightarrow> string \<Rightarrow> 'f" where
  "rrf_score ops fts_ids semantic_ids x =
     f_add ops (contribution ops (f_lit ops (7 / 10)) 60 fts_ids x)
               (contribution ops (f_lit ops (3 / 10)) 60 semantic_ids x)"

text \<open>Exact rational arithmetic, one instance of the float operations.\<close>

definition rat_ops :: "rat float_ops" where
  "rat_ops = \<lparr> f_lit = (\<lambda>r. r), f_add = (+), f_div = (\<lambda>x n. x / of_int n), f_neg = uminus \<rparr>"


section \<open>Reference resolution (resolve.py)\<close>

text \<open>\<open>s.split("/")\<close>: the pieces between the separators, empty pieces kept.\<close>

fun split_on :: "char \<Rightarrow> string \<Rightarrow> string list" where
  "split_on sep [] = [[]]"
| "split_on sep (c # cs) =
     (if c = sep then [] # split_on sep cs
      else (case split_on sep cs of [] \<Rightarrow> [[c]] | w # ws \<Rightarrow> (c # w) # ws))"

text \<open>\<open>s.replace(old, new)\<close> for a pattern \<open>old\<close> of two characters, left to right.\<close>

fun replace_pair :: "char \<Rightarrow> char \<Rightarrow> string \<Rightarrow> string \<Rightarrow> string" where
  "replace_pair a b new (x # y # zs) =
     (if x = a \<and> y = b then new @ replace_pair a b new zs else x # replace_pair a b new (y # zs))"
| "replace_pair a b new s = s"

definition unescape :: "string \<Rightarrow> string" where
  "unescape part = replace_pair CHR ''~'' CHR ''0'' ''~'' (replace_pair CHR ''~'' CHR ''1'' ''/'' part)"

text \<open>The loop of \<open>_resolve_ref_pointer\<close> over the parts of the pointer; \<open>JNull\<close> is \<open>None\<close>.\<close>

fun follow :: "json \<Rightarrow> string list \<Rightarrow> json" where
  "follow current [] = current"
| "follow current (part # parts) =
     (case current of
        JObj d \<Rightarrow>
          (let nxt = dict_get d (unescape part)
           in if nxt = JNull then JNull else follow nxt parts)
      | _ \<Rightarrow> JNull)"

definition resolve_ref_pointer :: "json \<Rightarrow> string \<Rightarrow> json" where
  "resolve_ref_pointer spec ref =
     (if take 2 ref \<noteq> ''#/'' then JNull
      else (let pointer = drop 2 ref
            in if pointer = [] then spec else follow spec (split_on CHR ''/'' pointer)))"

text \<open>Every string that some mapping inside a value holds under the key \<open>$ref\<close>.\<close>

fun all_refs :: "json \<Rightarrow> string set" where
  "all_refs (JObj d) =
     (case dict_get d ''$ref'' of JStr r \<Rightarrow> {r} | _ \<Rightarrow> {}) \<union> (\<Union>kv\<in>set d. all_refs (snd kv))"
| "all_refs (JArr xs) = (\<Union>x\<in>set xs. all_refs x)"
| "all_refs v = {}"

lemma finite_all_refs: "finite (all_refs v)"
  by (induction v rule: all_refs.induct) (auto split: json.splits)

lemma all_refs_dict_get: "all_refs (dict_get d k) \<subseteq> all_refs (JObj d)"
proof (cases "map_of d k")
  case None
  then show ?thesis by (simp add: dict_get_def)
next
  case (Some v)
  then have "(k, v) \<in> set d"
    by (rule map_of_SomeD)
  then show ?thesis
    using Some by (force simp: dict_get_def)
qed

lemma all_refs_follow: "all_refs (follow v parts) \<subseteq> all_refs v"
proof (induction v parts rule: follow.induct)
  case (1 current)
  then show ?case by simp
next
  case (2 current part parts)
  show ?case
  proof (cases current)
    case (JObj d)
    show ?thesis
    proof (cases "dict_get d (unescape part) = JNull")
      case True
      then show ?thesis using JObj by simp
    next
      case False
      have "all_refs (follow (dict_get d (unescape part)) parts) \<subseteq> all_refs (dict_get d (unescape part))"
        using "2.IH" [OF JObj refl False] .
      also have "\<dots> \<subseteq> all_refs (JObj d)"
        by (rule all_refs_dict_get)
      finally show ?thesis
        using JObj False by (simp add: Let_def)
    qed
  qed simp_all
qed

lemma all_refs_resolve: "all_refs (resolve_ref_pointer spec ref) \<subseteq> all_refs spec"
  by (simp add: resolve_ref_pointer_def Let_def all_refs_follow)

lemma size_dict_value: "kv \<in> set d \<Longrightarrow> size (snd kv) < size (JObj d)"
  by (induction d) auto

lemma size_arr_value: "v \<in> set xs \<Longrightarrow> size v < size (JArr xs)"
  by (induction xs) auto

text \<open>
  The references a call may still follow: those of the spec and of the value that are
  not on the chain. Following a reference takes it out; descending into a value adds none.
\<close>

definition unseen_refs :: "json \<Rightarrow> json \<Rightarrow> string fset \<Rightarrow> nat" where
  "unseen_refs val spec seen = card ((all_refs spec \<union> all_refs val) - fset seen)"

lemma unseen_refs_resolve:
  assumes r: "dict_get d ''$ref'' = JStr ref" and n: "ref |\<notin>| seen"
  shows "unseen_refs (resolve_ref_pointer spec ref) spec (finsert ref seen) < unseen_refs (JObj d) spec seen"
proof -
  let ?target = "resolve_ref_pointer spec ref"
  have sub: "(all_refs spec \<union> all_refs ?target) - fset (finsert ref seen)
             \<subseteq> ((all_refs spec \<union> all_refs (JObj d)) - fset seen) - {ref}"
    using all_refs_resolve [of spec ref] by auto
  have mem: "ref \<in> (all_refs spec \<union> all_refs (JObj d)) - fset seen"
    using r n by simp
  have fin: "finite ((all_refs spec \<union> all_refs (JObj d)) - fset seen)"
    by (intro finite_Diff finite_UnI finite_all_refs)
  have "card ((all_refs spec \<union> all_refs ?target) - fset (finsert ref seen))
        \<le> card (((all_refs spec \<union> all_refs (JObj d)) - fset seen) - {ref})"
    by (rule card_mono [OF _ sub]) (intro finite_Diff finite_UnI finite_all_refs)
  also have "\<dots> < card ((all_refs spec \<union> all_refs (JObj d)) - fset seen)"
    by (rule card_Diff1_less [OF fin mem])
  finally show ?thesis
    by (simp add: unseen_refs_def)
qed

lemma unseen_refs_mono:
  assumes "all_refs v \<subseteq> all_refs w"
  shows "unseen_refs v spec seen \<le> unseen_refs w spec seen"
proof -
  have "(all_refs spec \<union> all_refs v) - fset seen \<subseteq> (all_refs spec \<union> all_refs w) - fset seen"
    using assms by auto
  then show ?thesis
    unfolding unseen_refs_def by (intro card_mono finite_Diff finite_UnI finite_all_refs)
qed

lemma unseen_refs_dict: "kv \<in> set d \<Longrightarrow> unseen_refs (snd kv) spec seen \<le> unseen_refs (JObj d) spec seen"
  by (rule unseen_refs_mono) auto

lemma unseen_refs_arr: "item \<in> set xs \<Longrightarrow> unseen_refs item spec seen \<le> unseen_refs (JArr xs) spec seen"
  by (rule unseen_refs_mono) auto

definition resolve_order :: "((json \<times> json \<times> string fset) \<times> (json \<times> json \<times> string fset)) set" where
  "resolve_order = measures [\<lambda>(val, spec, seen). unseen_refs val spec seen, \<lambda>(val, spec, seen). size val]"

lemma wf_resolve_order: "wf resolve_order"
  by (simp add: resolve_order_def)

lemma resolve_order_ref:
  "dict_get d ''$ref'' = JStr ref \<Longrightarrow> ref |\<notin>| seen \<Longrightarrow>
   ((resolve_ref_pointer spec ref, spec, finsert ref seen), (JObj d, spec, seen)) \<in> resolve_order"
  using unseen_refs_resolve [of d ref seen spec] by (simp add: resolve_order_def)

lemma resolve_order_dict:
  "kv \<in> set d \<Longrightarrow> ((snd kv, spec, seen), (JObj d, spec, seen)) \<in> resolve_order"
  using unseen_refs_dict [of kv d spec seen] size_dict_value [of kv d]
  by (auto simp: resolve_order_def)

lemma resolve_order_arr:
  "item \<in> set xs \<Longrightarrow> ((item, spec, seen), (JArr xs, spec, seen)) \<in> resolve_order"
  using unseen_refs_arr [of item xs spec seen] size_arr_value [of item xs]
  by (auto simp: resolve_order_def)

text \<open>
  \<open>deep_resolve_refs\<close>. The source adds the reference to the shared set \<open>seen\<close> before it
  descends into the target and removes it afterwards, so each call sees exactly the
  references on its own chain.
\<close>

function deep_resolve_refs :: "json \<Rightarrow> json \<Rightarrow> string fset \<Rightarrow> json" where
  "deep_resolve_refs val spec seen =
     (if spec = JNull then val
      else (case val of
              JObj d \<Rightarrow>
                (case dict_get d ''$ref'' of
                   JStr ref \<Rightarrow>
                     (if ref |\<in>| seen then JObj []
                      else (let target = resolve_ref_pointer spec ref
                            in if target = JNull then val
                               else deep_resolve_refs target spec (finsert ref seen)))
                 | _ \<Rightarrow> JObj (map (\<lambda>kv. (fst kv, deep_resolve_refs (snd kv) spec seen)) d))
            | JArr xs \<Rightarrow> JArr (map (\<lambda>item. deep_resolve_refs item spec seen) xs)
            | _ \<Rightarrow> val))"
  by pat_completeness auto
termination
  by (relation resolve_order)
    (auto simp: wf_resolve_order intro: resolve_order_ref resolve_order_dict resolve_order_arr)

declare deep_resolve_refs.simps [simp del]







section \<open>Payload synthesis (payloads.py)\<close>

subsection \<open>Python equality and lookups on parsed values\<close>

text \<open>
  \<open>a == b\<close>: numbers (and booleans) compare by value, strings and \<open>None\<close> with their
  own kind, lists element by element, mappings as sets of entries.
\<close>

fun num_val :: "json \<Rightarrow> rat option" where
  "num_val (JBool b) = Some (if b then 1 else 0)"
| "num_val (JInt i) = Some (of_int i)"
| "num_val (JFloat r) = Some r"
| "num_val v = None"

function (sequential) py_eq :: "json \<Rightarrow> json \<Rightarrow> bool" where
  "py_eq (JArr xs) (JArr ys) =
     (length xs = length ys \<and> list_all (\<lambda>xy. py_eq (fst xy) (snd xy)) (zip xs ys))"
| "py_eq (JObj a) (JObj b) =
     (length a = length b \<and>
      list_all (\<lambda>kv. list_ex (\<lambda>kw. fst kv = fst kw \<and> py_eq (snd kv) (snd kw)) b) a)"
| "py_eq a b =
     (case (num_val a, num_val b) of
        (Some x, Some y) \<Rightarrow> x = y
      | (None, None) \<Rightarrow> a = b
      | _ \<Rightarrow> False)"
  by pat_completeness auto
termination
proof (relation "measure (\<lambda>(a, b). size a)")
  show "wf (measure (\<lambda>(a, b). size a))" by simp
next
  fix xs ys :: "json list" and xy
  assume "xy \<in> set (zip xs ys)"
  then have "fst xy \<in> set xs"
    by (metis prod.collapse set_zip_leftD)
  then show "((fst xy, snd xy), (JArr xs, JArr ys)) \<in> measure (\<lambda>(a, b). size a)"
    using size_arr_value [of "fst xy" xs] by (simp add: case_prod_beta)
next
  fix a b :: "(string \<times> json) list" and kv kw
  assume "kv \<in> set a"
  then show "((snd kv, snd kw), (JObj a, JObj b)) \<in> measure (\<lambda>(a, b). size a)"
    using size_dict_value [of kv a] by (simp add: case_prod_beta)
qed

text \<open>\<open>d.get(k, default)\<close> and \<open>d[k]\<close>.\<close>

definition dict_get_default :: "(string \<times> json) list \<Rightarrow> string \<Rightarrow> json \<Rightarrow> json" where
  "dict_get_default d k dflt = (case map_of d k of None \<Rightarrow> dflt | Some v \<Rightarrow> v)"

definition dict_index :: "(string \<times> json) list \<Rightarrow> string \<Rightarrow> py_error + json" where
  "dict_index d k = (case map_of d k of None \<Rightarrow> Inl KeyError | Some v \<Rightarrow> Inr v)"

text \<open>\<open>isinstance(v, dict)\<close>, and \<open>v if isinstance(v, dict) else {}\<close>.\<close>

fun is_dict :: "json \<Rightarrow> bool" where
  "is_dict (JObj d) = True"
| "is_dict v = False"

fun dict_or_empty :: "json \<Rightarrow> (string \<times> json) list" where
  "dict_or_empty (JObj d) = d"
| "dict_or_empty v = []"

text \<open>\<open>[item for item in v if isinstance(item, str)] if isinstance(v, list) else []\<close>.\<close>

fun str_items :: "json \<Rightarrow> string list" where
  "str_items (JArr xs) = concat (map (\<lambda>x. case x of JStr s \<Rightarrow> [s] | _ \<Rightarrow> []) xs)"
| "str_items v = []"

subsection \<open>Schema normalization: \<open>allOf\<close> merging and implied types\<close>

text \<open>
  One round of the loop of \<open>_normalize_schema\<close> over the normalized branches of \<open>allOf\<close>:
  \<open>merged\<close> keeps the first value of every key other than \<open>properties\<close> and \<open>required\<close>,
  \<open>properties\<close> takes every property (a later branch overwrites), \<open>required\<close> collects
  the names.
\<close>

definition merge_branch ::
  "(string \<times> json) list \<Rightarrow> (string \<times> json) list \<times> (string \<times> json) list \<times> string list \<Rightarrow>
   (string \<times> json) list \<times> (string \<times> json) list \<times> string list" where
  "merge_branch sub_schema acc =
     (case acc of (merged, properties, required) \<Rightarrow>
        (let properties' =
               (case dict_get sub_schema ''properties'' of
                  JObj sub_props \<Rightarrow> fold (\<lambda>kv ps. dict_set (fst kv) (snd kv) ps) sub_props properties
                | _ \<Rightarrow> properties);
             required' = required @ str_items (dict_get sub_schema ''required'');
             merged' =
               fold (\<lambda>kv m. if fst kv = ''properties'' \<or> fst kv = ''required'' then m
                             else if dict_has m (fst kv) then m
                             else dict_set (fst kv) (snd kv) m)
                    sub_schema merged
         in (merged', properties', required')))"

text \<open>\<open>{**schema, **merged}\<close>.\<close>

definition dict_union :: "(string \<times> json) list \<Rightarrow> (string \<times> json) list \<Rightarrow> (string \<times> json) list" where
  "dict_union a b = fold (\<lambda>kv d. dict_set (fst kv) (snd kv) d) b a"

definition imply_type :: "(string \<times> json) list \<Rightarrow> (string \<times> json) list" where
  "imply_type schema =
     (if \<not> dict_has schema ''type'' then
        (if is_dict (dict_get schema ''properties'') then dict_set ''type'' (JStr ''object'') schema
         else if is_dict (dict_get schema ''items'') then dict_set ''type'' (JStr ''array'') schema
         else schema)
      else schema)"

definition merge_all_of :: "(string \<times> json) list \<Rightarrow> (string \<times> json) list list \<Rightarrow> (string \<times> json) list" where
  "merge_all_of schema subs =
     (case fold merge_branch subs ([], [], []) of
        (merged, properties, required) \<Rightarrow>
          (let merged1 =
                 (if properties \<noteq> [] then
                    (let m = dict_set ''properties'' (JObj properties) merged
                     in dict_set ''type'' (dict_get_default m ''type'' (JStr ''object'')) m)
                  else merged);
               merged2 =
                 (if required \<noteq> [] then dict_set ''required'' (JArr (map JStr (sort (remdups required)))) merged1
                  else merged1)
           in dict_union schema merged2))"

lemma size_map_of_value: "map_of d k = Some v \<Longrightarrow> size v < size (JObj d)"
  using size_dict_value [of "(k, v)" d] by (auto dest: map_of_SomeD)

lemma size_all_of_branch: "map_of d k = Some (JArr subs) \<Longrightarrow> sub \<in> set subs \<Longrightarrow> size sub < size (JObj d)"
  using size_arr_value [of sub subs] size_map_of_value [of d k "JArr subs"] by simp

function normalize_schema :: "json \<Rightarrow> (string \<times> json) list" where
  "normalize_schema schema =
     (case schema of
        JObj d \<Rightarrow>
          (case map_of d ''allOf'' of
             Some (JArr subs) \<Rightarrow>
               imply_type (merge_all_of d (map normalize_schema (filter is_dict subs)))
           | _ \<Rightarrow> imply_type d)
      | _ \<Rightarrow> [])"
  by pat_completeness auto
termination
  by (relation "measure size") (auto dest: size_all_of_branch)

declare normalize_schema.simps [simp del]


subsection \<open>Union selection by discriminator\<close>

text \<open>\<open>value in mapping\<close> for a mapping with string keys: an unhashable value raises.\<close>

definition dict_contains :: "(string \<times> json) list \<Rightarrow> json \<Rightarrow> py_error + bool" where
  "dict_contains m v =
     (case v of
        JStr s \<Rightarrow> Inr (dict_has m s)
      | JArr xs \<Rightarrow> Inl TypeError
      | JObj d \<Rightarrow> Inl TypeError
      | _ \<Rightarrow> Inr False)"

definition option_matches_discriminator :: "(string \<times> json) list \<Rightarrow> string \<Rightarrow> json \<Rightarrow> bool" where
  "option_matches_discriminator opt prop_name v =
     (let schema = normalize_schema (JObj opt);
          properties = dict_or_empty (dict_get schema ''properties'')
      in case dict_get properties prop_name of
           JObj prop_schema \<Rightarrow>
             (if dict_has prop_schema ''const'' then py_eq (dict_get prop_schema ''const'') v
              else if (case dict_get prop_schema ''enum'' of JArr enum \<Rightarrow> list_ex (\<lambda>x. py_eq x v) enum | _ \<Rightarrow> False)
                   then True
              else if py_eq (dict_get prop_schema ''default'') v then True
              else False)
         | _ \<Rightarrow> False)"

definition infer_discriminator_value :: "(string \<times> json) list \<Rightarrow> string \<Rightarrow> json" where
  "infer_discriminator_value opt prop_name =
     (let schema = normalize_schema (JObj opt);
          properties = dict_or_empty (dict_get schema ''properties'')
      in case dict_get properties prop_name of
           JObj prop_schema \<Rightarrow>
             (if dict_has prop_schema ''const'' then dict_get prop_schema ''const''
              else (case dict_get prop_schema ''enum'' of
                      JArr (e # enum) \<Rightarrow> e
                    | _ \<Rightarrow> (if dict_has prop_schema ''default'' then dict_get prop_schema ''default'' else JNull)))
         | _ \<Rightarrow> JNull)"

text \<open>The first mapping among \<open>options\<close> that satisfies \<open>P\<close>, or \<open>None\<close>.\<close>

fun first_option :: "((string \<times> json) list \<Rightarrow> bool) \<Rightarrow> json list \<Rightarrow> json" where
  "first_option P [] = JNull"
| "first_option P (opt # options) =
     (case opt of
        JObj d \<Rightarrow> (if P d then opt else first_option P options)
      | _ \<Rightarrow> first_option P options)"

text \<open>
  \<open>_select_by_discriminator\<close>; the argument \<open>mapping\<close> is a mapping or \<open>None\<close>, and the
  source only tests its truth value before it looks into it, so \<open>None\<close> is the empty
  mapping here.
\<close>

definition select_by_discriminator :: "json list \<Rightarrow> string \<Rightarrow> json \<Rightarrow> (string \<times> json) list \<Rightarrow> py_error + json" where
  "select_by_discriminator options prop_name v mapping =
     (let by_property = first_option (\<lambda>d. option_matches_discriminator d prop_name v) options
      in if mapping \<noteq> [] then
           (case dict_contains mapping v of
              Inl e \<Rightarrow> Inl e
            | Inr False \<Rightarrow> Inr by_property
            | Inr True \<Rightarrow>
                (case v of
                   JStr key \<Rightarrow>
                     (case dict_get mapping key of
                        JObj target \<Rightarrow> Inr (JObj target)
                      | JStr target \<Rightarrow>
                          (let by_name =
                                 first_option
                                   (\<lambda>d. dict_get d ''$ref'' = JStr target \<or> dict_get d ''$id'' = JStr target
                                        \<or> dict_get d ''title'' = JStr target)
                                   options
                           in if by_name \<noteq> JNull then Inr by_name else Inr by_property)
                      | _ \<Rightarrow> Inr by_property)
                 | _ \<Rightarrow> Inr by_property))
         else Inr by_property)"

fun infer_discriminator_option :: "json list \<Rightarrow> string \<Rightarrow> (json \<times> json) option" where
  "infer_discriminator_option [] prop_name = None"
| "infer_discriminator_option (opt # options) prop_name =
     (case opt of
        JObj d \<Rightarrow>
          (let v = infer_discriminator_value d prop_name
           in if v \<noteq> JNull then Some (opt, v) else infer_discriminator_option options prop_name)
      | _ \<Rightarrow> infer_discriminator_option options prop_name)"

text \<open>
  One round of the loop of \<open>_select_union_schema\<close> over \<open>("oneOf", "anyOf")\<close>: \<open>None\<close>
  when the loop goes on to the next key; \<open>first\<close> is \<open>options[0]\<close>.
\<close>

definition select_with_discriminator ::
  "(string \<times> json) list \<Rightarrow> json \<Rightarrow> json list \<Rightarrow> json \<Rightarrow> py_error + (json \<times> (string \<times> json) option) option" where
  "select_with_discriminator discriminator first options provided =
     (let mapping = dict_or_empty (dict_get discriminator ''mapping'')
      in case dict_get discriminator ''propertyName'' of
           JStr prop_name \<Rightarrow>
             (let provided_value = (case provided of JObj p \<Rightarrow> dict_get p prop_name | _ \<Rightarrow> JNull);
                  by_provided =
                    (if provided_value \<noteq> JNull
                     then select_by_discriminator options prop_name provided_value mapping
                     else Inr JNull)
              in case by_provided of
                   Inl e \<Rightarrow> Inl e
                 | Inr selected \<Rightarrow>
                     (if truthy selected then Inr (Some (selected, Some (prop_name, provided_value)))
                      else if mapping \<noteq> [] then
                        (let mapping_key = hd (sort (map fst mapping))
                         in case select_by_discriminator options prop_name (JStr mapping_key) mapping of
                              Inl e \<Rightarrow> Inl e
                            | Inr selected' \<Rightarrow>
                                (if truthy selected' then Inr (Some (selected', Some (prop_name, JStr mapping_key)))
                                 else Inr (Some (first, Some (prop_name, JStr mapping_key)))))
                      else (case infer_discriminator_option options prop_name of
                              Some (opt, v) \<Rightarrow> Inr (Some (opt, Some (prop_name, v)))
                            | None \<Rightarrow> Inr None)))
         | _ \<Rightarrow> Inr None)"

definition select_for_key ::
  "(string \<times> json) list \<Rightarrow> string \<Rightarrow> json \<Rightarrow> py_error + (json \<times> (string \<times> json) option) option" where
  "select_for_key schema key provided =
     (case dict_get schema key of
        JArr (opt # options) \<Rightarrow>
          (let by_discriminator =
                 (case dict_get schema ''discriminator'' of
                    JObj (entry # discriminator) \<Rightarrow>
                      select_with_discriminator (entry # discriminator) opt (opt # options) provided
                  | _ \<Rightarrow> Inr None)
           in case by_discriminator of
                Inl e \<Rightarrow> Inl e
              | Inr (Some r) \<Rightarrow> Inr (Some r)
              | Inr None \<Rightarrow> (if is_dict opt then Inr (Some (opt, None)) else Inr None))
      | _ \<Rightarrow> Inr None)"

definition select_union_schema :: "json \<Rightarrow> json \<Rightarrow> py_error + (json \<times> (string \<times> json) option)" where
  "select_union_schema schema provided =
     (case schema of
        JObj d \<Rightarrow>
          (case select_for_key d ''oneOf'' provided of
             Inl e \<Rightarrow> Inl e
           | Inr (Some r) \<Rightarrow> Inr r
           | Inr None \<Rightarrow>
               (case select_for_key d ''anyOf'' provided of
                  Inl e \<Rightarrow> Inl e
                | Inr (Some r) \<Rightarrow> Inr r
                | Inr None \<Rightarrow> Inr (schema, None)))
      | _ \<Rightarrow> Inr (JObj [], None))"


subsection \<open>Leaf values from field names\<close>

text \<open>
  The pseudo-data generator and the hash are libraries: \<open>sha256_hexdigest\<close> is
  \<open>hashlib.sha256(key.encode("utf-8")).hexdigest()\<close>, and \<open>faker_call seed m\<close> is what
  method \<open>m\<close> returns as the first call on a \<open>Faker\<close> instance seeded with \<open>seed\<close>.
\<close>

datatype provider =
    Email | Uuid4 | FirstName | LastName | Name | PhoneNumber | Postcode | City
  | CountryCode | StreetAddress | Url | Date | Iso8601 | CurrencyCode | Word

record ext =
  sha256_hexdigest :: "string \<Rightarrow> string"
  faker_call :: "int \<Rightarrow> provider \<Rightarrow> string"

text \<open>\<open>int(digits, 16)\<close>.\<close>

definition hex_digit :: "char \<Rightarrow> int option" where
  "hex_digit c =
     (let n = (of_char c :: nat)
      in if 48 \<le> n \<and> n \<le> 57 then Some (int n - 48)
         else if 97 \<le> n \<and> n \<le> 102 then Some (int n - 87)
         else if 65 \<le> n \<and> n \<le> 70 then Some (int n - 55)
         else None)"

fun hex_int_from :: "int \<Rightarrow> string \<Rightarrow> py_error + int" where
  "hex_int_from acc [] = Inr acc"
| "hex_int_from acc (c # cs) =
     (case hex_digit c of None \<Rightarrow> Inl ValueError | Some v \<Rightarrow> hex_int_from (16 * acc + v) cs)"

definition hex_int :: "string \<Rightarrow> py_error + int" where
  "hex_int s = (if s = [] then Inl ValueError else hex_int_from 0 s)"

text \<open>\<open>_faker_for_key\<close>: the generator is determined by its seed.\<close>

definition faker_for_key :: "ext \<Rightarrow> string \<Rightarrow> py_error + int" where
  "faker_for_key x key = hex_int (take 8 (sha256_hexdigest x key))"

text \<open>\<open>str.lower()\<close> on code points below 256, \<open>sub in s\<close> and \<open>s.endswith(suffix)\<close>.\<close>

definition lower_char :: "char \<Rightarrow> char" where
  "lower_char c =
     (let n = (of_char c :: nat)
      in if (65 \<le> n \<and> n \<le> 90) \<or> (192 \<le> n \<and> n \<le> 222 \<and> n \<noteq> 215) then char_of (n + 32) else c)"

definition py_lower :: "string \<Rightarrow> string" where
  "py_lower s = map lower_char s"

fun contains :: "string \<Rightarrow> string \<Rightarrow> bool" where
  "contains sub [] = (sub = [])"
| "contains sub (c # cs) = (take (length sub) (c # cs) = sub \<or> contains sub cs)"

definition endswith :: "string \<Rightarrow> string \<Rightarrow> bool" where
  "endswith s suffix = (length suffix \<le> length s \<and> drop (length s - length suffix) s = suffix)"

text \<open>\<open>schema_format in {...}\<close>: a list or a mapping is unhashable.\<close>

definition format_in :: "json \<Rightarrow> string list \<Rightarrow> py_error + bool" where
  "format_in fmt names =
     (case fmt of
        JStr f \<Rightarrow> Inr (f \<in> set names)
      | JArr xs \<Rightarrow> Inl TypeError
      | JObj d \<Rightarrow> Inl TypeError
      | _ \<Rightarrow> Inr False)"

definition guess_string :: "ext \<Rightarrow> string \<Rightarrow> json \<Rightarrow> py_error + json" where
  "guess_string x field_name schema_format =
     (let name = py_lower field_name
      in case faker_for_key x field_name of
           Inl e \<Rightarrow> Inl e
         | Inr seed \<Rightarrow>
             (let faker = (\<lambda>m. Inr (JStr (faker_call x seed m)))
              in if schema_format = JStr ''email'' \<or> contains ''email'' name then faker Email
                 else (case format_in schema_format [''uuid'', ''uuid4''] of
                   Inl e \<Rightarrow> Inl e
                 | Inr is_uuid \<Rightarrow>
                     if is_uuid \<or> contains ''uuid'' name then faker Uuid4
                     else if contains ''name'' name then
                       (if contains ''first'' name then faker FirstName
                        else if contains ''last'' name then faker LastName
                        else faker Name)
                     else if contains ''phone'' name then faker PhoneNumber
                     else if contains ''zip'' name \<or> contains ''postal'' name then faker Postcode
                     else if contains ''city'' name then faker City
                     else if contains ''country'' name then faker CountryCode
                     else if contains ''address'' name then faker StreetAddress
                     else (case (if contains ''url'' name then Inr True else format_in schema_format [''uri'', ''url'']) of
                       Inl e \<Rightarrow> Inl e
                     | Inr is_url \<Rightarrow>
                         if is_url then faker Url
                         else if contains ''date'' name \<or> schema_format = JStr ''date'' then faker Date
                         else (case (if contains ''time'' name then Inr True
                                     else format_in schema_format [''date-time'', ''datetime'']) of
                           Inl e \<Rightarrow> Inl e
                         | Inr is_time \<Rightarrow>
                             if is_time then faker Iso8601
                             else if contains ''currency'' name then faker CurrencyCode
                             else if endswith name ''id'' \<or> endswith name ''_id'' then faker Uuid4
                             else faker Word)))))"

text \<open>\<open>_guess_value\<close>; \<open>JNull\<close> is the result \<open>None\<close> (no guess for this type).\<close>

definition guess_value :: "ext \<Rightarrow> string \<Rightarrow> (string \<times> json) list \<Rightarrow> py_error + json" where
  "guess_value x field_name schema =
     (let schema_type = dict_get schema ''type'';
          schema_format = dict_get schema ''format'';
          name = py_lower field_name
      in if schema_type = JStr ''string'' then guess_string x field_name schema_format
         else if schema_type = JStr ''integer'' then
           (if contains ''age'' name then Inr (JInt 30)
            else if contains ''count'' name then Inr (JInt 1)
            else if contains ''limit'' name then Inr (JInt 10)
            else if contains ''lives'' name then Inr (JInt 9)
            else if endswith name ''id'' \<or> endswith name ''_id'' then Inr (JInt 1)
            else Inr (JInt 0))
         else if schema_type = JStr ''number'' then
           (if list_ex (\<lambda>key. contains key name) [''amount'', ''price'', ''total'', ''cost'']
            then Inr (JFloat 100) else Inr (JFloat 0))
         else if schema_type = JStr ''boolean'' then Inr (JBool False)
         else Inr JNull)"

text \<open>The fallbacks after \<open>_guess_value\<close> returned \<open>None\<close>.\<close>

definition type_fallback :: "json \<Rightarrow> json" where
  "type_fallback schema_type =
     (if schema_type = JStr ''integer'' then JInt 0
      else if schema_type = JStr ''number'' then JFloat 0
      else if schema_type = JStr ''boolean'' then JBool False
      else JStr ''<string>'')"


subsection \<open>What a normalized schema is made of\<close>

text \<open>
  The values inside a value (itself included), and the entries of the mappings inside
  it. Normalization and union selection only rearrange entries of the schema they are
  given; this bounds the recursion of the placeholder generator and the nesting of
  generated bodies.
\<close>

fun subvalues :: "json \<Rightarrow> json set" where
  "subvalues (JObj d) = insert (JObj d) (\<Union>kv\<in>set d. subvalues (snd kv))"
| "subvalues (JArr xs) = insert (JArr xs) (\<Union>x\<in>set xs. subvalues x)"
| "subvalues v = {v}"

definition entry_of :: "json \<Rightarrow> string \<times> json \<Rightarrow> bool" where
  "entry_of s e = (\<exists>d. JObj d \<in> subvalues s \<and> e \<in> set d)"

definition made_of :: "json \<Rightarrow> string \<times> json \<Rightarrow> bool" where
  "made_of s e =
     (entry_of s e
      \<or> (fst e = ''type'' \<and> (snd e = JStr ''object'' \<or> snd e = JStr ''array''))
      \<or> (fst e = ''properties'' \<and> (\<exists>ps. snd e = JObj ps \<and> (\<forall>p\<in>set ps. entry_of s p)))
      \<or> (fst e = ''required'' \<and> (\<exists>names. snd e = JArr (map JStr names))))"

lemma subvalues_self: "v \<in> subvalues v"
  by (cases v) auto

lemma subvalues_trans: "v \<in> subvalues w \<Longrightarrow> w \<in> subvalues s \<Longrightarrow> v \<in> subvalues s"
proof (induction s arbitrary: w rule: subvalues.induct)
  case (1 d)
  show ?case
  proof (cases "w = JObj d")
    case True
    with "1.prems" show ?thesis by simp
  next
    case False
    with "1.prems" obtain kv where kv: "kv \<in> set d" and w: "w \<in> subvalues (snd kv)"
      by auto
    have "v \<in> subvalues (snd kv)"
      using "1.IH" [OF kv "1.prems"(1) w] .
    with kv show ?thesis by auto
  qed
next
  case (2 xs)
  show ?case
  proof (cases "w = JArr xs")
    case True
    with "2.prems" show ?thesis by simp
  next
    case False
    with "2.prems" obtain x where x: "x \<in> set xs" and w: "w \<in> subvalues x"
      by auto
    have "v \<in> subvalues x"
      using "2.IH" [OF x "2.prems"(1) w] .
    with x show ?thesis by auto
  qed
qed auto

lemma subvalues_size: "v \<in> subvalues s \<Longrightarrow> size v \<le> size s"
proof (induction s rule: subvalues.induct)
  case (1 d)
  then show ?case
    using size_dict_value by fastforce
next
  case (2 xs)
  then show ?case
    using size_arr_value by fastforce
qed auto

lemma entry_of_size: "entry_of s e \<Longrightarrow> size (snd e) < size s"
proof -
  assume "entry_of s e"
  then obtain d where d: "JObj d \<in> subvalues s" and e: "e \<in> set d"
    by (auto simp: entry_of_def)
  have "size (snd e) < size (JObj d)"
    using e by (rule size_dict_value)
  with subvalues_size [OF d] show ?thesis by simp
qed

lemma entry_of_top: "e \<in> set d \<Longrightarrow> entry_of (JObj d) e"
  by (auto simp: entry_of_def)

lemma entry_of_sub: "entry_of v e \<Longrightarrow> v \<in> subvalues s \<Longrightarrow> entry_of s e"
  by (auto simp: entry_of_def intro: subvalues_trans)

lemma entry_value_sub: "entry_of s e \<Longrightarrow> snd e \<in> subvalues s"
proof -
  assume "entry_of s e"
  then obtain d where d: "JObj d \<in> subvalues s" and e: "e \<in> set d"
    by (auto simp: entry_of_def)
  have "snd e \<in> subvalues (JObj d)"
    using e by (auto intro: subvalues_self)
  then show ?thesis
    using d by (rule subvalues_trans)
qed

lemma entry_of_entry: "entry_of s e \<Longrightarrow> snd e = JObj d \<Longrightarrow> p \<in> set d \<Longrightarrow> entry_of s p"
  using entry_value_sub [of s e] by (auto simp: entry_of_def)

lemma dict_get_entry: "dict_get d k \<noteq> JNull \<Longrightarrow> (k, dict_get d k) \<in> set d"
  by (auto simp: dict_get_def split: option.splits dest: map_of_SomeD)

lemma update_entries: "e \<in> set (AList.update k v d) \<Longrightarrow> e = (k, v) \<or> e \<in> set d"
  by (induction d) (auto split: if_splits)

lemma dict_set_entries: "e \<in> set (dict_set k v d) \<Longrightarrow> e = (k, v) \<or> e \<in> set d"
  unfolding dict_set_def by (rule update_entries)

lemma fold_dict_set_entries:
  "e \<in> set (fold (\<lambda>kv ps. dict_set (fst kv) (snd kv) ps) xs d) \<Longrightarrow> e \<in> set xs \<or> e \<in> set d"
proof (induction xs arbitrary: d)
  case Nil
  then show ?case by simp
next
  case (Cons x xs)
  from Cons.IH [OF Cons.prems [simplified]] show ?case
    by (auto dest: dict_set_entries)
qed

lemma dict_union_entries: "e \<in> set (dict_union a b) \<Longrightarrow> e \<in> set a \<or> e \<in> set b"
  unfolding dict_union_def by (auto dest: fold_dict_set_entries)

lemma merged_fold_entries:
  "e \<in> set (fold (\<lambda>kv m. if fst kv = ''properties'' \<or> fst kv = ''required'' then m
                             else if dict_has m (fst kv) then m
                             else dict_set (fst kv) (snd kv) m) xs merged)
   \<Longrightarrow> e \<in> set merged \<or> (e \<in> set xs \<and> fst e \<noteq> ''properties'' \<and> fst e \<noteq> ''required'')"
proof (induction xs arbitrary: merged)
  case Nil
  then show ?case by simp
next
  case (Cons x xs)
  from Cons.IH [OF Cons.prems [simplified]] show ?case
    by (auto split: if_splits dest: dict_set_entries)
qed

text \<open>The three accumulators of the \<open>allOf\<close> loop hold entries of the branches only.\<close>

definition branch_entries :: "(string \<times> json) list list \<Rightarrow> (string \<times> json) list \<times> (string \<times> json) list \<times> string list \<Rightarrow> bool" where
  "branch_entries subs acc =
     (case acc of (merged, properties, required) \<Rightarrow>
        (\<forall>e\<in>set merged. fst e \<noteq> ''properties'' \<and> fst e \<noteq> ''required'' \<and> (\<exists>sub\<in>set subs. e \<in> set sub))
        \<and> (\<forall>p\<in>set properties. \<exists>sub\<in>set subs. \<exists>ps. dict_get sub ''properties'' = JObj ps \<and> p \<in> set ps))"

lemma merge_branch_entries:
  assumes "branch_entries subs acc" and "sub \<in> set subs"
  shows "branch_entries subs (merge_branch sub acc)"
proof -
  obtain merged properties required where acc: "acc = (merged, properties, required)"
    by (cases acc) auto
  have am: "\<forall>e\<in>set merged. fst e \<noteq> ''properties'' \<and> fst e \<noteq> ''required'' \<and> (\<exists>sub\<in>set subs. e \<in> set sub)"
    and ap: "\<forall>p\<in>set properties. \<exists>sub\<in>set subs. \<exists>ps. dict_get sub ''properties'' = JObj ps \<and> p \<in> set ps"
    using assms(1) acc by (simp_all add: branch_entries_def)
  have m: "\<forall>e\<in>set (fold (\<lambda>kv m. if fst kv = ''properties'' \<or> fst kv = ''required'' then m
                             else if dict_has m (fst kv) then m
                             else dict_set (fst kv) (snd kv) m) sub merged).
             fst e \<noteq> ''properties'' \<and> fst e \<noteq> ''required'' \<and> (\<exists>sub\<in>set subs. e \<in> set sub)"
  proof
    fix e
    assume "e \<in> set (fold (\<lambda>kv m. if fst kv = ''properties'' \<or> fst kv = ''required'' then m
                             else if dict_has m (fst kv) then m
                             else dict_set (fst kv) (snd kv) m) sub merged)"
    from merged_fold_entries [OF this]
    show "fst e \<noteq> ''properties'' \<and> fst e \<noteq> ''required'' \<and> (\<exists>sub\<in>set subs. e \<in> set sub)"
      using am assms(2) by blast
  qed
  have p: "\<forall>p\<in>set (case dict_get sub ''properties'' of
                  JObj sub_props \<Rightarrow> fold (\<lambda>kv ps. dict_set (fst kv) (snd kv) ps) sub_props properties
                | _ \<Rightarrow> properties).
             \<exists>sub\<in>set subs. \<exists>ps. dict_get sub ''properties'' = JObj ps \<and> p \<in> set ps"
  proof (cases "dict_get sub ''properties''")
    case (JObj sub_props)
    have "\<forall>p\<in>set (fold (\<lambda>kv ps. dict_set (fst kv) (snd kv) ps) sub_props properties).
             \<exists>sub\<in>set subs. \<exists>ps. dict_get sub ''properties'' = JObj ps \<and> p \<in> set ps"
    proof
      fix p assume "p \<in> set (fold (\<lambda>kv ps. dict_set (fst kv) (snd kv) ps) sub_props properties)"
      from fold_dict_set_entries [OF this]
      show "\<exists>sub\<in>set subs. \<exists>ps. dict_get sub ''properties'' = JObj ps \<and> p \<in> set ps"
        using ap JObj assms(2) by blast
    qed
    then show ?thesis
      by (simp only: JObj json.case)
  qed (use ap in \<open>simp_all only: json.case\<close>)
  show ?thesis
    unfolding acc merge_branch_def Let_def branch_entries_def prod.case
    by (intro conjI m p)
qed

lemma fold_merge_branch_entries:
  "branch_entries subs acc \<Longrightarrow> set xs \<subseteq> set subs \<Longrightarrow> branch_entries subs (fold merge_branch xs acc)"
proof (induction xs arbitrary: acc)
  case Nil
  then show ?case by simp
next
  case (Cons x xs)
  have "branch_entries subs (merge_branch x acc)"
    using Cons.prems by (intro merge_branch_entries) auto
  then show ?case
    using Cons by simp
qed

lemma made_of_mono: "made_of v e \<Longrightarrow> v \<in> subvalues s \<Longrightarrow> made_of s e"
  unfolding made_of_def by (meson entry_of_sub)

lemma imply_type_made_of:
  assumes "\<forall>e\<in>set d. made_of s e"
  shows "\<forall>e\<in>set (imply_type d). made_of s e"
  using assms by (auto simp: imply_type_def made_of_def dest!: dict_set_entries)

lemma merge_all_of_made_of:
  assumes subs: "\<forall>sub\<in>set subs. \<forall>e\<in>set sub. made_of s e" and d: "\<forall>e\<in>set d. made_of s e"
  shows "\<forall>e\<in>set (merge_all_of d subs). made_of s e"
proof -
  obtain merged properties required where f: "fold merge_branch subs ([], [], []) = (merged, properties, required)"
    by (cases "fold merge_branch subs ([], [], [])") auto
  have "branch_entries subs (fold merge_branch subs ([], [], []))"
    by (rule fold_merge_branch_entries) (simp_all add: branch_entries_def)
  then have be: "branch_entries subs (merged, properties, required)"
    using f by simp
  have pm: "\<forall>e\<in>set merged. made_of s e"
    using be subs by (auto simp: branch_entries_def)
  have pp: "\<forall>p\<in>set properties. entry_of s p"
  proof
    fix p assume "p \<in> set properties"
    then obtain sub ps where sub: "sub \<in> set subs" and g: "dict_get sub ''properties'' = JObj ps" and p: "p \<in> set ps"
      using be by (auto simp: branch_entries_def)
    have "(''properties'', JObj ps) \<in> set sub"
      using dict_get_entry [of sub "''properties''"] g by simp
    then have "made_of s (''properties'', JObj ps)"
      using subs sub by blast
    then show "entry_of s p"
      using p by (auto simp: made_of_def dest: entry_of_entry)
  qed
  let ?m = "dict_set ''properties'' (JObj properties) merged"
  have t: "made_of s (''type'', dict_get_default ?m ''type'' (JStr ''object''))"
  proof (cases "map_of ?m ''type''")
    case None
    then show ?thesis by (simp add: dict_get_default_def made_of_def)
  next
    case (Some v)
    then have "(''type'', v) \<in> set ?m"
      by (rule map_of_SomeD)
    then have "(''type'', v) \<in> set merged"
      by (auto dest: dict_set_entries)
    then show ?thesis
      using pm Some by (auto simp: dict_get_default_def)
  qed
  define merged1 where "merged1 =
     (if properties \<noteq> [] then
        (let m = dict_set ''properties'' (JObj properties) merged
         in dict_set ''type'' (dict_get_default m ''type'' (JStr ''object'')) m)
      else merged)"
  define merged2 where "merged2 =
     (if required \<noteq> [] then dict_set ''required'' (JArr (map JStr (sort (remdups required)))) merged1
      else merged1)"
  have m1: "\<forall>e\<in>set merged1. made_of s e"
  proof (cases "properties = []")
    case True
    then show ?thesis using pm by (simp add: merged1_def)
  next
    case False
    have "made_of s (''properties'', JObj properties)"
      using pp by (auto simp: made_of_def)
    then show ?thesis
      using False pm t by (auto simp: merged1_def Let_def dest!: dict_set_entries)
  qed
  have r: "made_of s (''required'', JArr (map JStr (sort (remdups required))))"
    by (auto simp: made_of_def)
  have m2: "\<forall>e\<in>set merged2. made_of s e"
    using m1 r by (auto simp: merged2_def dest!: dict_set_entries)
  have "merge_all_of d subs = dict_union d merged2"
    by (simp add: merge_all_of_def f merged1_def merged2_def Let_def)
  then show ?thesis
    using m2 d by (auto dest!: dict_union_entries)
qed

lemma normalize_schema_made_of: "\<forall>e\<in>set (normalize_schema s). made_of s e"
proof (induction s rule: normalize_schema.induct)
  case (1 schema)
  show ?case
  proof (cases schema)
    case (JObj d)
    have top: "\<forall>e\<in>set d. made_of schema e"
      using JObj by (auto simp: made_of_def intro: entry_of_top)
    show ?thesis
    proof (cases "\<exists>subs. map_of d ''allOf'' = Some (JArr subs)")
      case False
      then have "normalize_schema schema = imply_type d"
        using JObj by (subst normalize_schema.simps) (auto split: option.splits json.splits)
      then show ?thesis
        using imply_type_made_of [OF top] by simp
    next
      case True
      then obtain subs where a: "map_of d ''allOf'' = Some (JArr subs)"
        by blast
      have n: "normalize_schema schema = imply_type (merge_all_of d (map normalize_schema (filter is_dict subs)))"
        using JObj a by (subst normalize_schema.simps) simp
      have "\<forall>sub\<in>set (map normalize_schema (filter is_dict subs)). \<forall>e\<in>set sub. made_of schema e"
      proof (intro ballI)
        fix sub e assume "sub \<in> set (map normalize_schema (filter is_dict subs))" and e: "e \<in> set sub"
        then obtain b where b: "b \<in> set (filter is_dict subs)" and sub: "sub = normalize_schema b"
          by auto
        have "made_of b e"
          using "1.IH" [OF JObj a refl b] e sub by blast
        moreover have "b \<in> subvalues schema"
        proof -
          have "(''allOf'', JArr subs) \<in> set d"
            using a by (rule map_of_SomeD)
          moreover have "b \<in> subvalues (JArr subs)"
            using b by (auto intro: subvalues_self)
          ultimately show ?thesis
            using JObj by force
        qed
        ultimately show "made_of schema e"
          by (rule made_of_mono)
      qed
      from merge_all_of_made_of [OF this top] show ?thesis
        using n imply_type_made_of by simp
    qed
  qed (subst normalize_schema.simps, simp)+
qed


lemma first_option_result: "first_option P options = JNull \<or> first_option P options \<in> set options"
  by (induction options) (auto split: json.splits)

lemma infer_discriminator_option_result:
  "infer_discriminator_option options prop_name = Some (opt, v) \<Longrightarrow>
   opt \<in> set options \<and> v \<noteq> JNull \<and> (\<exists>d. opt = JObj d \<and> v = infer_discriminator_value d prop_name)"
  by (induction options) (auto simp: Let_def split: json.splits if_splits)

lemma dict_get_value: "dict_get m key \<noteq> JNull \<Longrightarrow> dict_get m key \<in> snd ` set m"
  using dict_get_entry by force

lemma dict_get_subvalue: "dict_get d k \<noteq> JNull \<Longrightarrow> dict_get d k \<in> subvalues (JObj d)"
proof -
  assume "dict_get d k \<noteq> JNull"
  then have "(k, dict_get d k) \<in> set d"
    by (rule dict_get_entry)
  moreover have "dict_get d k \<in> subvalues (dict_get d k)"
    by (rule subvalues_self)
  ultimately show ?thesis
    by force
qed

lemma select_by_discriminator_result:
  assumes "select_by_discriminator options prop_name v mapping = Inr r"
  shows "r = JNull \<or> r \<in> set options \<or> r \<in> snd ` set mapping"
proof -
  have b: "\<And>P. first_option P options = JNull \<or> first_option P options \<in> set options"
    by (rule first_option_result)
  show ?thesis
    using assms b dict_get_value [of mapping] unfolding select_by_discriminator_def Let_def
    by (auto split: if_splits sum.splits bool.splits json.splits)
qed

lemma select_with_discriminator_result:
  assumes "select_with_discriminator discriminator first options provided = Inr (Some (sel, disc))"
  shows "sel = first \<or> sel \<in> set options \<or> sel \<in> snd ` set (dict_or_empty (dict_get discriminator ''mapping''))"
proof -
  have s: "\<And>v r. select_by_discriminator options (case dict_get discriminator ''propertyName'' of JStr n \<Rightarrow> n | _ \<Rightarrow> []) v
                 (dict_or_empty (dict_get discriminator ''mapping'')) = Inr r \<Longrightarrow> truthy r \<Longrightarrow>
              r \<in> set options \<or> r \<in> snd ` set (dict_or_empty (dict_get discriminator ''mapping''))"
    using select_by_discriminator_result by fastforce
  show ?thesis
  proof (cases "dict_get discriminator ''propertyName''")
    case (JStr prop_name)
    show ?thesis
      using assms s unfolding select_with_discriminator_def Let_def JStr json.case
      by (auto split: if_splits sum.splits option.splits dest: infer_discriminator_option_result)
  qed (use assms in \<open>simp_all add: select_with_discriminator_def Let_def\<close>)
qed

lemma select_for_key_result:
  assumes "select_for_key d key provided = Inr (Some (sel, disc))"
  shows "sel \<in> subvalues (JObj d)"
proof -
  obtain opt options where o: "dict_get d key = JArr (opt # options)"
    using assms by (auto simp: select_for_key_def split: json.splits list.splits)
  have e: "(key, JArr (opt # options)) \<in> set d"
    using dict_get_entry [of d key] o by simp
  have opts: "\<And>v. v \<in> set (opt # options) \<Longrightarrow> v \<in> subvalues (JObj d)"
  proof -
    fix v assume "v \<in> set (opt # options)"
    then have "v \<in> subvalues (JArr (opt # options))"
      using subvalues_self [of v] by auto
    then show "v \<in> subvalues (JObj d)"
      using e by force
  qed
  have maps: "\<And>disc v. dict_get d ''discriminator'' = JObj disc \<Longrightarrow>
                v \<in> snd ` set (dict_or_empty (dict_get disc ''mapping'')) \<Longrightarrow> v \<in> subvalues (JObj d)"
  proof -
    fix disc v
    assume g: "dict_get d ''discriminator'' = JObj disc"
      and v: "v \<in> snd ` set (dict_or_empty (dict_get disc ''mapping''))"
    then obtain m where m: "dict_get disc ''mapping'' = JObj m" and vm: "v \<in> snd ` set m"
      by (cases "dict_get disc ''mapping''") auto
    have "v \<in> subvalues (JObj m)"
      using vm subvalues_self [of v] by auto
    moreover have "JObj m \<in> subvalues (JObj disc)"
      using dict_get_subvalue [of disc "''mapping''"] m by simp
    moreover have "JObj disc \<in> subvalues (JObj d)"
      using dict_get_subvalue [of d "''discriminator''"] g by simp
    ultimately show "v \<in> subvalues (JObj d)"
      by (meson subvalues_trans)
  qed
  have mem: "sel \<in> set (opt # options)
             \<or> (\<exists>disc. dict_get d ''discriminator'' = JObj disc
                        \<and> sel \<in> snd ` set (dict_or_empty (dict_get disc ''mapping'')))"
    using assms o unfolding select_for_key_def
    by (auto split: if_splits sum.splits option.splits json.splits list.splits
             dest!: select_with_discriminator_result)
  then show ?thesis
    using opts maps by blast
qed

lemma select_union_schema_result:
  assumes "select_union_schema schema provided = Inr (sel, disc)"
  shows "sel \<in> subvalues schema \<or> (sel = JObj [] \<and> \<not> is_dict schema)"
proof (cases schema)
  case (JObj d)
  show ?thesis
    using assms select_for_key_result [of d _ provided sel disc] subvalues_self [of schema]
    unfolding select_union_schema_def JObj json.case
    by (auto split: sum.splits option.splits)
qed (use assms in \<open>auto simp: select_union_schema_def\<close>)

lemma size_empty_dict: "d \<noteq> [] \<Longrightarrow> size (JObj []) < size (JObj d)"
  by (cases d) auto

lemma placeholder_items_size:
  assumes "select_union_schema (JObj d) provided = Inr (sel, disc)"
    and "dict_get (normalize_schema sel) ''type'' = JStr ''array''"
  shows "size (case dict_get (normalize_schema sel) ''items'' of JObj i \<Rightarrow> JObj i | _ \<Rightarrow> JObj []) < size (JObj d)"
proof -
  have sub: "sel \<in> subvalues (JObj d)"
    using select_union_schema_result [OF assms(1)] by simp
  then have le: "size sel \<le> size (JObj d)"
    by (rule subvalues_size)
  have F: "size (JObj []) < size (JObj d)"
  proof -
    have ne: "normalize_schema sel \<noteq> []"
      using assms(2) by (auto simp: dict_get_def)
    then obtain sd where sd: "sel = JObj sd"
      by (cases sel) (simp_all add: normalize_schema.simps)
    have "sd \<noteq> []"
    proof
      assume "sd = []"
      then have "normalize_schema sel = []"
        using sd by (simp add: normalize_schema.simps imply_type_def dict_has_def dict_get_def)
      with ne show False by simp
    qed
    then have "size (JObj []) < size sel"
      using sd size_empty_dict by simp
    with le show ?thesis
      by simp
  qed
  show ?thesis
  proof (cases "dict_get (normalize_schema sel) ''items''")
    case (JObj i)
    have "(''items'', JObj i) \<in> set (normalize_schema sel)"
      using dict_get_entry [of "normalize_schema sel" "''items''"] JObj by simp
    then have "made_of sel (''items'', JObj i)"
      using normalize_schema_made_of by blast
    then have "entry_of sel (''items'', JObj i)"
      by (simp add: made_of_def)
    from entry_of_size [OF this] le show ?thesis
      using JObj by simp
  qed (use F in simp_all)
qed


subsection \<open>Placeholders for parameters\<close>

function placeholder_for_schema :: "ext \<Rightarrow> json \<Rightarrow> string option \<Rightarrow> py_error + json" where
  "placeholder_for_schema x schema field_name =
     (case schema of
        JObj d \<Rightarrow>
          (case select_union_schema (JObj d) JNull of
             Inl e \<Rightarrow> Inl e
           | Inr (selected, disc) \<Rightarrow>
               (let s = normalize_schema selected
                in if dict_has s ''const'' then Inr (dict_get s ''const'')
                   else (case guess_value x (case field_name of Some f \<Rightarrow> f | None \<Rightarrow> []) s of
                           Inl e \<Rightarrow> Inl e
                         | Inr guess \<Rightarrow>
                             if guess \<noteq> JNull then Inr guess
                             else if dict_get s ''type'' = JStr ''integer'' then Inr (JInt 0)
                             else if dict_get s ''type'' = JStr ''number'' then Inr (JFloat 0)
                             else if dict_get s ''type'' = JStr ''boolean'' then Inr (JBool False)
                             else if dict_get s ''type'' = JStr ''array'' then
                               (case placeholder_for_schema x
                                       (case dict_get s ''items'' of JObj i \<Rightarrow> JObj i | _ \<Rightarrow> JObj [])
                                       field_name of
                                  Inl e \<Rightarrow> Inl e
                                | Inr v \<Rightarrow> Inr (JArr [v]))
                             else if dict_get s ''type'' = JStr ''object'' then Inr (JObj [])
                             else Inr (JStr ''<string>''))))
      | _ \<Rightarrow> Inr (JStr ''<string>''))"
  by pat_completeness auto
termination
  by (relation "measure (\<lambda>(x, schema, field_name). size schema)")
    (auto simp del: json.size dest: placeholder_items_size)

declare placeholder_for_schema.simps [simp del]

subsection \<open>The body generator\<close>

text \<open>
  \<open>_generate_from_schema\<close> and \<open>_generate_object\<close>, with the loop over the sorted property
  names (\<open>generate_props\<close>) and the comprehension over the provided items
  (\<open>generate_items\<close>). The list \<open>unknowns\<close> that the source appends to is passed in and
  returned. \<open>MAX_DEPTH\<close> is 3.
\<close>

definition MAX_DEPTH :: int where
  "MAX_DEPTH = 3"

definition items_schema_of :: "(string \<times> json) list \<Rightarrow> json" where
  "items_schema_of s = (case dict_get s ''items'' of JObj i \<Rightarrow> JObj i | _ \<Rightarrow> JObj [])"

text \<open>The last step of \<open>_generate_object\<close>: the discriminator property, when not yet emitted.\<close>

definition emit_discriminator ::
  "ext \<Rightarrow> (string \<times> json) list \<Rightarrow> (string \<times> json) option \<Rightarrow> (string \<times> json) list \<Rightarrow> py_error + (string \<times> json) list" where
  "emit_discriminator x properties discriminator output =
     (case discriminator of
        None \<Rightarrow> Inr output
      | Some (discriminator_name, discriminator_value) \<Rightarrow>
          if discriminator_name \<noteq> [] \<and> \<not> dict_has output discriminator_name then
            (if dict_has properties discriminator_name then
               (case dict_get properties discriminator_name of
                  JObj prop_schema \<Rightarrow>
                    (if discriminator_value \<noteq> JNull
                     then Inr (dict_set discriminator_name discriminator_value output)
                     else (case placeholder_for_schema x (JObj prop_schema) None of
                             Inl e \<Rightarrow> Inl e
                           | Inr v \<Rightarrow> Inr (dict_set discriminator_name v output)))
                | _ \<Rightarrow> Inr output)
             else if discriminator_value \<noteq> JNull
               then Inr (dict_set discriminator_name discriminator_value output)
             else Inr output)
          else Inr output)"

text \<open>
  The recursion is bounded by the depth: a call at a depth above \<open>MAX_DEPTH\<close> returns at
  once, and every recursive call is one level deeper.
\<close>

definition gen_level :: "int \<Rightarrow> nat" where
  "gen_level depth = (if depth > MAX_DEPTH then 0 else 3 * nat (4 - depth))"

function generate_from_schema ::
    "ext \<Rightarrow> json \<Rightarrow> json \<Rightarrow> string \<Rightarrow> string list \<Rightarrow> int \<Rightarrow> string option \<Rightarrow> py_error + json \<times> string list"
  and generate_object ::
    "ext \<Rightarrow> (string \<times> json) list \<Rightarrow> (string \<times> json) list \<Rightarrow> string \<Rightarrow> string list \<Rightarrow>
     (string \<times> json) option \<Rightarrow> int \<Rightarrow> py_error + json \<times> string list"
  and generate_props ::
    "ext \<Rightarrow> (string \<times> json) list \<Rightarrow> string list \<Rightarrow> (string \<times> json) list \<Rightarrow> string \<Rightarrow> int \<Rightarrow>
     string list \<Rightarrow> (string \<times> json) list \<Rightarrow> string list \<Rightarrow> py_error + (string \<times> json) list \<times> string list"
  and generate_items ::
    "ext \<Rightarrow> json \<Rightarrow> string \<Rightarrow> int \<Rightarrow> string option \<Rightarrow> nat \<Rightarrow> json list \<Rightarrow> string list \<Rightarrow>
     py_error + json list \<times> string list"
where
  "generate_from_schema x schema provided pth unknowns depth field_name =
     (if depth > MAX_DEPTH then Inr (JStr ''<recursion_limit>'', unknowns)
      else (case select_union_schema schema provided of
        Inl e \<Rightarrow> Inl e
      | Inr (selected_schema, discriminator) \<Rightarrow>
          (let s = normalize_schema selected_schema
           in if provided \<noteq> JNull then
                (case provided of
                   JObj p \<Rightarrow>
                     (if dict_get s ''type'' = JStr ''object''
                      then generate_object x s p pth unknowns discriminator depth
                      else Inr (provided, unknowns))
                 | JArr items \<Rightarrow>
                     (if dict_get s ''type'' = JStr ''array''
                      then (case generate_items x (items_schema_of s) pth depth field_name 0 items unknowns of
                              Inl e \<Rightarrow> Inl e
                            | Inr (vs, u) \<Rightarrow> Inr (JArr vs, u))
                      else Inr (provided, unknowns))
                 | _ \<Rightarrow> Inr (provided, unknowns))
              else if dict_has s ''const'' then Inr (dict_get s ''const'', unknowns)
              else if dict_has s ''default'' then Inr (dict_get s ''default'', unknowns)
              else (case dict_get s ''enum'' of
                      JArr (first # enum) \<Rightarrow> Inr (first, unknowns)
                    | _ \<Rightarrow>
                        if dict_get s ''type'' = JStr ''object''
                        then generate_object x s [] pth unknowns discriminator depth
                        else if dict_get s ''type'' = JStr ''array'' then
                          (case generate_from_schema x (items_schema_of s) JNull (pth @ ''[0]'') unknowns
                                  (depth + 1) field_name of
                             Inl e \<Rightarrow> Inl e
                           | Inr (item_value, u) \<Rightarrow> Inr (JArr [item_value], u))
                        else (case guess_value x
                                     (case field_name of Some f \<Rightarrow> (if f \<noteq> [] then f else pth) | None \<Rightarrow> pth) s of
                                Inl e \<Rightarrow> Inl e
                              | Inr guess \<Rightarrow>
                                  if guess \<noteq> JNull then Inr (guess, unknowns)
                                  else Inr (type_fallback (dict_get s ''type''), unknowns))))))"
| "generate_object x schema provided pth unknowns discriminator depth =
     (let properties = dict_or_empty (dict_get schema ''properties'');
          required = str_items (dict_get schema ''required'')
      in case generate_props x properties required provided pth depth (sort (map fst properties)) [] unknowns of
           Inl e \<Rightarrow> Inl e
         | Inr (output, u) \<Rightarrow>
             (case emit_discriminator x properties discriminator output of
                Inl e \<Rightarrow> Inl e
              | Inr output' \<Rightarrow> Inr (JObj output', u)))"
| "generate_props x properties required provided pth depth [] output unknowns = Inr (output, unknowns)"
| "generate_props x properties required provided pth depth (prop_name # names) output unknowns =
     (case dict_get properties prop_name of
        JObj prop_schema \<Rightarrow>
          (let prop_provided = dict_get provided prop_name;
               is_required = (prop_name \<in> set required);
               unknowns' = (if is_required \<and> prop_provided = JNull
                            then unknowns @ [pth @ ''.'' @ prop_name] else unknowns)
           in if is_required \<or> prop_provided \<noteq> JNull then
                (case generate_from_schema x (JObj prop_schema) prop_provided (pth @ ''.'' @ prop_name)
                        unknowns' (depth + 1) (Some prop_name) of
                   Inl e \<Rightarrow> Inl e
                 | Inr (v, u) \<Rightarrow>
                     generate_props x properties required provided pth depth names
                       (dict_set prop_name v output) u)
              else generate_props x properties required provided pth depth names output unknowns')
      | _ \<Rightarrow> generate_props x properties required provided pth depth names output unknowns)"
| "generate_items x items_schema pth depth field_name idx [] unknowns = Inr ([], unknowns)"
| "generate_items x items_schema pth depth field_name idx (item # items) unknowns =
     (case generate_from_schema x items_schema item (pth @ ''['' @ str_nat idx @ '']'') unknowns
             (depth + 1) field_name of
        Inl e \<Rightarrow> Inl e
      | Inr (v, u) \<Rightarrow>
          (case generate_items x items_schema pth depth field_name (idx + 1) items u of
             Inl e \<Rightarrow> Inl e
           | Inr (vs, u') \<Rightarrow> Inr (v # vs, u')))"
  by pat_completeness auto
termination
  by (relation "measures [
        (\<lambda>a. case a of
           Inl (Inl (x, schema, provided, pth, unknowns, depth, field_name)) \<Rightarrow> gen_level depth
         | Inl (Inr (x, schema, provided, pth, unknowns, discriminator, depth)) \<Rightarrow> gen_level (depth + 1) + 2
         | Inr (Inl (x, properties, required, provided, pth, depth, names, output, unknowns)) \<Rightarrow>
             gen_level (depth + 1) + 1
         | Inr (Inr (x, items_schema, pth, depth, field_name, idx, items, unknowns)) \<Rightarrow>
             gen_level (depth + 1) + 1),
        (\<lambda>a. case a of
           Inr (Inl (x, properties, required, provided, pth, depth, names, output, unknowns)) \<Rightarrow> length names
         | Inr (Inr (x, items_schema, pth, depth, field_name, idx, items, unknowns)) \<Rightarrow> length items
         | _ \<Rightarrow> 0)]")
    (auto simp: gen_level_def MAX_DEPTH_def)

declare generate_from_schema.simps [simp del]
declare generate_object.simps [simp del]


subsection \<open>Request body, parameters and the payload\<close>

text \<open>
  \<open>_extract_request_body\<close> returns \<open>None\<close> or a mapping with exactly the keys \<open>required\<close>,
  \<open>contentType\<close> and \<open>schema\<close>; \<open>rb_schema\<close> is \<open>JNull\<close> for \<open>None\<close>.
\<close>

record request_body =
  rb_required :: bool
  rb_content_type :: string
  rb_schema :: json

definition choose_content_type :: "(string \<times> json) list \<Rightarrow> string" where
  "choose_content_type content =
     (if dict_has content ''application/json'' then ''application/json'' else hd (sort (map fst content)))"

definition extract_request_body :: "json \<Rightarrow> json \<Rightarrow> request_body option" where
  "extract_request_body opn spec =
     (case opn of
        JObj op \<Rightarrow>
          (case dict_get op ''requestBody'' of
             JObj rb \<Rightarrow>
               (case dict_get rb ''content'' of
                  JObj content \<Rightarrow>
                    (if content = [] then None
                     else (let content_type = choose_content_type content;
                               schema =
                                 (case dict_get content content_type of
                                    JObj media \<Rightarrow>
                                      (case dict_get media ''schema'' of
                                         JObj sch \<Rightarrow> deep_resolve_refs (JObj sch) spec {||}
                                       | _ \<Rightarrow> JNull)
                                  | _ \<Rightarrow> JNull)
                           in Some \<lparr> rb_required = truthy (dict_get_default rb ''required'' (JBool False)),
                                     rb_content_type = content_type,
                                     rb_schema = schema \<rparr>))
                | _ \<Rightarrow> None)
           | _ \<Rightarrow> None)
      | _ \<Rightarrow> None)"

definition normalize_provided_fields :: "(string \<times> json) list \<Rightarrow> (string \<times> json) list" where
  "normalize_provided_fields provided_fields =
     (if list_ex (\<lambda>key. dict_has provided_fields key) [''path'', ''query'', ''header'', ''body'', ''parameters'']
      then (case dict_get provided_fields ''parameters'' of
              JObj parameters \<Rightarrow>
                [(''path'', dict_get_default parameters ''path'' (dict_get_default provided_fields ''path'' (JObj []))),
                 (''query'', dict_get_default parameters ''query'' (dict_get_default provided_fields ''query'' (JObj []))),
                 (''header'', dict_get_default parameters ''header'' (dict_get_default provided_fields ''header'' (JObj []))),
                 (''body'', dict_get_default provided_fields ''body'' (JObj []))]
            | _ \<Rightarrow>
                [(''path'', dict_get_default provided_fields ''path'' (JObj [])),
                 (''query'', dict_get_default provided_fields ''query'' (JObj [])),
                 (''header'', dict_get_default provided_fields ''header'' (JObj [])),
                 (''body'', dict_get_default provided_fields ''body'' (JObj []))])
      else [(''path'', JObj []), (''query'', JObj []), (''header'', JObj []), (''body'', JObj provided_fields)])"

text \<open>\<open>for param in parameters\<close>: what iterating a parsed value yields, or \<open>TypeError\<close>.\<close>

definition iterate :: "json \<Rightarrow> py_error + json list" where
  "iterate v =
     (case v of
        JArr xs \<Rightarrow> Inr xs
      | JObj d \<Rightarrow> Inr (map (\<lambda>kv. JStr (fst kv)) d)
      | JStr s \<Rightarrow> Inr (map (\<lambda>c. JStr [c]) s)
      | _ \<Rightarrow> Inl TypeError)"

text \<open>
  The loop of \<open>_build_parameters\<close>; \<open>buckets\<close> is the mapping with the keys \<open>path\<close>,
  \<open>query\<close> and \<open>header\<close>.
\<close>

fun build_parameters_loop ::
  "ext \<Rightarrow> json list \<Rightarrow> (string \<times> json) list \<Rightarrow> (string \<times> json) list \<Rightarrow> string list \<Rightarrow>
   py_error + (string \<times> json) list \<times> string list" where
  "build_parameters_loop x [] provided buckets unknowns = Inr (buckets, unknowns)"
| "build_parameters_loop x (param # params) provided buckets unknowns =
     (case param of
        JObj p \<Rightarrow>
          (case (dict_get p ''name'', dict_get p ''in'') of
             (JStr name, JStr location) \<Rightarrow>
               (if \<not> dict_has buckets location then build_parameters_loop x params provided buckets unknowns
                else (let required = truthy (dict_get_default p ''required'' (JBool False))
                      in case dict_get_default provided location (JObj []) of
                           JObj given \<Rightarrow>
                             (let provided_value = dict_get given name
                              in if \<not> required \<and> provided_value = JNull
                                 then build_parameters_loop x params provided buckets unknowns
                                 else if provided_value \<noteq> JNull
                                 then build_parameters_loop x params provided
                                        (dict_set location
                                           (JObj (dict_set name provided_value (dict_or_empty (dict_get buckets location))))
                                           buckets)
                                        unknowns
                                 else (case placeholder_for_schema x (dict_get p ''schema'') (Some name) of
                                         Inl e \<Rightarrow> Inl e
                                       | Inr placeholder \<Rightarrow>
                                           build_parameters_loop x params provided
                                             (dict_set location
                                                (JObj (dict_set name placeholder (dict_or_empty (dict_get buckets location))))
                                                buckets)
                                             (unknowns @ [''params.'' @ location @ ''.'' @ name])))
                         | _ \<Rightarrow> Inl AttributeError))
           | _ \<Rightarrow> build_parameters_loop x params provided buckets unknowns)
      | _ \<Rightarrow> build_parameters_loop x params provided buckets unknowns)"

definition build_parameters :: "ext \<Rightarrow> json \<Rightarrow> (string \<times> json) list \<Rightarrow> py_error + (string \<times> json) list \<times> string list" where
  "build_parameters x parameters provided =
     (case iterate parameters of
        Inl e \<Rightarrow> Inl e
      | Inr params \<Rightarrow>
          build_parameters_loop x params provided
            [(''path'', JObj []), (''query'', JObj []), (''header'', JObj [])] [])"

definition build_body :: "ext \<Rightarrow> json \<Rightarrow> json \<Rightarrow> py_error + json \<times> string list" where
  "build_body x schema provided =
     (if schema = JNull then Inr (JNull, [])
      else generate_from_schema x schema provided ''body'' [] 0 (Some ''body''))"

definition build_payload :: "ext \<Rightarrow> string \<Rightarrow> (string \<times> json) list \<Rightarrow> (string \<times> json) list \<Rightarrow> json \<Rightarrow> py_error + json" where
  "build_payload x endpoint_id record provided_fields spec =
     (case dict_index record ''operation'' of
        Inl e \<Rightarrow> Inl e
      | Inr opn \<Rightarrow>
          (let parameters = (case opn of JObj op \<Rightarrow> dict_get_default op ''parameters'' (JArr []) | _ \<Rightarrow> JArr []);
               provided = normalize_provided_fields provided_fields;
               request_body = extract_request_body opn spec;
               body_schema = (case request_body of Some rb \<Rightarrow> rb_schema rb | None \<Rightarrow> JNull);
               content_type = (case request_body of Some rb \<Rightarrow> JStr (rb_content_type rb) | None \<Rightarrow> JNull);
               body_required = (case request_body of Some rb \<Rightarrow> rb_required rb | None \<Rightarrow> False)
           in case build_parameters x parameters provided of
                Inl e \<Rightarrow> Inl e
              | Inr (param_payload, param_unknowns) \<Rightarrow>
                  (case build_body x body_schema (dict_get provided ''body'') of
                     Inl e \<Rightarrow> Inl e
                   | Inr (body_payload, body_unknowns) \<Rightarrow>
                       (let unknowns = sort (remdups (param_unknowns @ body_unknowns));
                            unknowns' =
                              (if body_required \<and> (body_payload = JNull \<or> body_payload = JObj [])
                               then sort (remdups (unknowns @ [''body''])) else unknowns)
                        in case dict_index record ''method'' of
                             Inl e \<Rightarrow> Inl e
                           | Inr meth \<Rightarrow>
                               (case dict_index record ''path'' of
                                  Inl e \<Rightarrow> Inl e
                                | Inr pth \<Rightarrow>
                                    Inr (JObj [(''endpointId'', JStr endpoint_id),
                                               (''request'', JObj [(''method'', meth), (''path'', pth),
                                                                   (''contentType'', content_type),
                                                                   (''parameters'', JObj param_payload),
                                                                   (''body'', body_payload)]),
                                               (''unknownRequiredFields'', JArr (map JStr unknowns'))]))))))"

section \<open>Request validation (validate.py)\<close>

text \<open>\<open>_extract_body\<close>: the body inside a \<open>request\<close> wrapper, else the \<open>body\<close> entry, else the request itself.\<close>

definition extract_body :: "(string \<times> json) list \<Rightarrow> json" where
  "extract_body request =
     (case (if dict_has request ''request'' then dict_get request ''request'' else JNull) of
        JObj inner \<Rightarrow> dict_get inner ''body''
      | _ \<Rightarrow> (if dict_has request ''body'' then dict_get request ''body'' else JObj request))"

text \<open>\<open>_is_oas31\<close>: the tracked version is a string or \<open>None\<close>.\<close>

definition is_oas31 :: "json \<Rightarrow> bool" where
  "is_oas31 version = (case version of JStr v \<Rightarrow> v \<noteq> [] \<and> take 3 v = ''3.1'' | _ \<Rightarrow> False)"

text \<open>\<open>_sanitize_for_validation\<close>: \<open>discriminator\<close> keys are dropped at every depth.\<close>

function sanitize_for_validation :: "json \<Rightarrow> json" where
  "sanitize_for_validation v =
     (case v of
        JObj d \<Rightarrow>
          JObj (map (\<lambda>kv. (fst kv, sanitize_for_validation (snd kv)))
                    (filter (\<lambda>kv. fst kv \<noteq> ''discriminator'') d))
      | JArr xs \<Rightarrow> JArr (map sanitize_for_validation xs)
      | _ \<Rightarrow> v)"
  by pat_completeness auto
termination
  by (relation "measure size") (auto dest: size_dict_value size_arr_value)

declare sanitize_for_validation.simps [simp del]

text \<open>
  The location of a validation error: property names and list indices. The schema
  validator is a library, the parameter \<open>iter_errors\<close>: from the dialect (\<open>True\<close> for OAS
  3.1), the sanitized schema and the body it yields the errors, each a location and a
  message.
\<close>

datatype path_item = Key string | Idx nat

definition format_error_path :: "path_item list \<Rightarrow> string" where
  "format_error_path p =
     (if p = [] then []
      else ''/'' @ py_join ''/'' (map (\<lambda>item. case item of Key s \<Rightarrow> s | Idx n \<Rightarrow> str_nat n) p))"

definition ok_result :: json where
  "ok_result = JObj [(''ok'', JBool True), (''errors'', JArr [])]"

definition validate_payload ::
  "(bool \<Rightarrow> json \<Rightarrow> json \<Rightarrow> (path_item list \<times> string) list) \<Rightarrow>
   (string \<times> json) list \<Rightarrow> (string \<times> json) list \<Rightarrow> json \<Rightarrow> json \<Rightarrow> json" where
  "validate_payload iter_errors record request spec_version spec =
     (case extract_request_body (dict_get record ''operation'') spec of
        None \<Rightarrow> ok_result
      | Some request_body \<Rightarrow>
          (case rb_schema request_body of
             JObj schema \<Rightarrow>
               (let body = extract_body request
                in if body = JNull then
                     (if rb_required request_body
                      then JObj [(''ok'', JBool False),
                                 (''errors'', JArr [JObj [(''path'', JStr ''body''),
                                                          (''message'', JStr ''Request body is required'')]])]
                      else ok_result)
                   else (let errors =
                               sort_key (\<lambda>e. e)
                                 (map (\<lambda>err. (format_error_path (fst err), snd err))
                                      (iter_errors (is_oas31 spec_version) (sanitize_for_validation (JObj schema)) body))
                         in JObj [(''ok'', JBool (errors = [])),
                                  (''errors'', JArr (map (\<lambda>e. JObj [(''path'', JStr (fst e)), (''message'', JStr (snd e))])
                                                         errors))]))
           | _ \<Rightarrow> ok_result))"

section \<open>The catalog engine (engine.py)\<close>

text \<open>
  The engine's state: the operations table of the index store (the record that
  \<open>_row_to_operation\<close> builds, by endpoint id), the parsed specs, their paths and their
  tracked versions. The tables of the index store are created by \<open>CatalogIndex.reset\<close>, which
  only \<open>refresh\<close> calls: until then (and unless the index file of an earlier run holds
  them) there is no operations table, the state \<open>None\<close>, and a statement on it raises
  \<open>sqlite3.OperationalError\<close>. The fields of a \<open>SpecMeta\<close> read from the cache file hold
  whatever the file holds. The world outside it: what \<open>load_raw_spec\<close> and \<open>dereference_spec\<close>
  return for a path (\<open>None\<close> for a \<open>DerefError\<close>), and whether \<open>OPENAPI_EXECUTION\<close> is \<open>1\<close>.
\<close>

record SpecMeta =
  sm_spec_id :: json
  sm_title :: json
  sm_version :: json
  sm_description :: json
  sm_file_path :: string
  sm_operation_count :: json
  sm_schema_count :: json
  sm_is_valid :: bool
  sm_validation_error :: json

record engine =
  eng_index_operations :: "(string \<times> (string \<times> json) list) list option"
  eng_specs :: "(string \<times> json) list"
  eng_spec_paths :: "(string \<times> string) list"
  eng_spec_meta :: "SpecMeta list"
  eng_spec_versions :: "(string \<times> json) list"
  eng_deref_mode :: string

record world =
  load_raw_spec :: "string \<Rightarrow> py_error + json"
  dereference_spec :: "string \<Rightarrow> json option"
  execution_enabled :: bool

text \<open>
  \<open>get_operation_by_endpoint_id\<close>, followed by \<open>if not record\<close>: a missing row or an empty
  record. The \<open>SELECT\<close> is not guarded: without the operations table it raises.
\<close>

definition get_operation_by_endpoint_id :: "engine \<Rightarrow> string \<Rightarrow> py_error + (string \<times> json) list option" where
  "get_operation_by_endpoint_id eng endpoint_id =
     (case eng_index_operations eng of
        None \<Rightarrow> Inl OperationalError
      | Some table \<Rightarrow>
          (case map_of table endpoint_id of
             None \<Rightarrow> Inr None
           | Some record \<Rightarrow> (if record = [] then Inr None else Inr (Some record))))"

definition load_spec :: "world \<Rightarrow> engine \<Rightarrow> string \<Rightarrow> json \<Rightarrow> json" where
  "load_spec w eng p raw =
     (if eng_deref_mode eng = ''full''
      then (case dereference_spec w p of Some spec \<Rightarrow> spec | None \<Rightarrow> raw)
      else raw)"

text \<open>\<open>_get_spec\<close>: the cached document, else the file is loaded and cached.\<close>

definition get_spec :: "world \<Rightarrow> engine \<Rightarrow> string \<Rightarrow> py_error + json \<times> engine" where
  "get_spec w eng sid =
     (let cached = dict_get (eng_specs eng) sid
      in if cached \<noteq> JNull then Inr (cached, eng)
         else (case map_of (eng_spec_paths eng) sid of
                 None \<Rightarrow> Inr (JNull, eng)
               | Some p \<Rightarrow>
                   if p = [] then Inr (JNull, eng)
                   else (case load_raw_spec w p of
                           Inl e \<Rightarrow> Inl e
                         | Inr raw \<Rightarrow>
                             (let spec = load_spec w eng p raw;
                                  version =
                                    (case spec of
                                       JObj s \<Rightarrow> (case dict_get s ''openapi'' of JStr v \<Rightarrow> JStr v | _ \<Rightarrow> JNull)
                                     | _ \<Rightarrow> JNull)
                              in Inr (spec, eng\<lparr> eng_specs := dict_set sid spec (eng_specs eng),
                                                  eng_spec_versions := dict_set sid version (eng_spec_versions eng) \<rparr>)))))"

text \<open>\<open>self._get_spec(record["specId"])\<close>; the index stores \<open>spec_id\<close> as text.\<close>

definition get_spec_of_record :: "world \<Rightarrow> engine \<Rightarrow> (string \<times> json) list \<Rightarrow> py_error + json \<times> engine" where
  "get_spec_of_record w eng record =
     (case dict_index record ''specId'' of
        Inl e \<Rightarrow> Inl e
      | Inr (JStr sid) \<Rightarrow> get_spec w eng sid
      | Inr (JArr xs) \<Rightarrow> Inl TypeError
      | Inr (JObj d) \<Rightarrow> Inl TypeError
      | Inr v \<Rightarrow> Inr (JNull, eng))"

definition payload_generate ::
  "world \<Rightarrow> ext \<Rightarrow> engine \<Rightarrow> string \<Rightarrow> (string \<times> json) list option \<Rightarrow> py_error + json \<times> engine" where
  "payload_generate w x eng endpoint_id provided_fields =
     (case get_operation_by_endpoint_id eng endpoint_id of
        Inl e \<Rightarrow> Inl e
      | Inr None \<Rightarrow> Inr (JObj [], eng)
      | Inr (Some record) \<Rightarrow>
          (case get_spec_of_record w eng record of
             Inl e \<Rightarrow> Inl e
           | Inr (spec, eng') \<Rightarrow>
               (case build_payload x endpoint_id record
                       (case provided_fields of Some p \<Rightarrow> p | None \<Rightarrow> []) spec of
                  Inl e \<Rightarrow> Inl e
                | Inr payload \<Rightarrow> Inr (payload, eng'))))"

definition payload_validate ::
  "world \<Rightarrow> (bool \<Rightarrow> json \<Rightarrow> json \<Rightarrow> (path_item list \<times> string) list) \<Rightarrow> engine \<Rightarrow> string \<Rightarrow>
   (string \<times> json) list \<Rightarrow> py_error + json \<times> engine" where
  "payload_validate w iter_errors eng endpoint_id request =
     (case get_operation_by_endpoint_id eng endpoint_id of
        Inl e \<Rightarrow> Inl e
      | Inr None \<Rightarrow>
          Inr (JObj [(''ok'', JBool False),
                     (''errors'', JArr [JObj [(''path'', JStr []), (''message'', JStr ''Unknown endpointId'')]])],
               eng)
      | Inr (Some record) \<Rightarrow>
          (let spec_version =
                 (case dict_get record ''specId'' of JStr sid \<Rightarrow> dict_get (eng_spec_versions eng) sid | _ \<Rightarrow> JNull)
           in case get_spec_of_record w eng record of
                Inl e \<Rightarrow> Inl e
              | Inr (spec, eng') \<Rightarrow> Inr (validate_payload iter_errors record request spec_version spec, eng')))"

text \<open>
  \<open>endpoint_get\<close> and \<open>execute_request\<close>. Rendering the contract of a known operation and
  performing the HTTP request for it are the parameters \<open>render_contract\<close> and \<open>perform\<close>.
\<close>

definition endpoint_get ::
  "world \<Rightarrow> ((string \<times> json) list \<Rightarrow> json \<Rightarrow> bool \<Rightarrow> py_error + json) \<Rightarrow> engine \<Rightarrow> string \<Rightarrow> bool \<Rightarrow>
   py_error + json \<times> engine" where
  "endpoint_get w render_contract eng endpoint_id full =
     (case get_operation_by_endpoint_id eng endpoint_id of
        Inl e \<Rightarrow> Inl e
      | Inr None \<Rightarrow> Inr (JObj [], eng)
      | Inr (Some record) \<Rightarrow>
          (case (if full then get_spec_of_record w eng record else Inr (JNull, eng)) of
             Inl e \<Rightarrow> Inl e
           | Inr (spec, eng') \<Rightarrow>
               (case render_contract record spec full of
                  Inl e \<Rightarrow> Inl e
                | Inr contract \<Rightarrow> Inr (contract, eng'))))"

definition execute_request ::
  "world \<Rightarrow> (json \<Rightarrow> (string \<times> json) list \<Rightarrow> string option \<Rightarrow> json) \<Rightarrow> engine \<Rightarrow> string \<Rightarrow>
   (string \<times> json) list \<Rightarrow> string option \<Rightarrow> py_error + json \<times> engine" where
  "execute_request w perform eng endpoint_id request auth_token =
     (if \<not> execution_enabled w
      then Inr (JObj [(''ok'', JBool False),
                      (''error'', JStr ''Execution disabled. Set OPENAPI_EXECUTION=1 to enable.'')], eng)
      else (case get_operation_by_endpoint_id eng endpoint_id of
              Inl e \<Rightarrow> Inl e
            | Inr None \<Rightarrow> Inr (JObj [(''ok'', JBool False), (''error'', JStr ''Unknown endpointId'')], eng)
            | Inr (Some record) \<Rightarrow>
                (case get_spec_of_record w eng record of
                   Inl e \<Rightarrow> Inl e
                 | Inr (spec, eng') \<Rightarrow> Inr (perform spec request auth_token, eng'))))"


text \<open>
  An operation declares a body schema when it is a mapping whose \<open>requestBody\<close> is a
  mapping with a non-empty \<open>content\<close> mapping, and the chosen media type is a mapping
  with a mapping-valued \<open>schema\<close>.
\<close>

definition declares_body_schema :: "json \<Rightarrow> bool" where
  "declares_body_schema opn =
     (case opn of
        JObj op \<Rightarrow>
          (case dict_get op ''requestBody'' of
             JObj rb \<Rightarrow>
               (case dict_get rb ''content'' of
                  JObj content \<Rightarrow>
                    content \<noteq> [] \<and>
                    (case dict_get content (choose_content_type content) of
                       JObj media \<Rightarrow> is_dict (dict_get media ''schema'')
                     | _ \<Rightarrow> False)
                | _ \<Rightarrow> False)
           | _ \<Rightarrow> False)
      | _ \<Rightarrow> False)"

text \<open>
  The engine as \<open>CatalogEngine(spec_dir)\<close> constructs it over a new index store, the engine
  after a refresh that found no operation, and a world with no readable file and execution
  disabled.
\<close>

definition new_engine :: engine where
  "new_engine = \<lparr> eng_index_operations = None, eng_specs = [], eng_spec_paths = [], eng_spec_meta = [], eng_spec_versions = [], eng_deref_mode = ''lazy'' \<rparr>"

definition empty_engine :: engine where
  "empty_engine = \<lparr> eng_index_operations = Some [], eng_specs = [], eng_spec_paths = [], eng_spec_meta = [], eng_spec_versions = [], eng_deref_mode = ''lazy'' \<rparr>"

definition closed_world :: world where
  "closed_world = \<lparr> load_raw_spec = (\<lambda>p. Inl OSError), dereference_spec = (\<lambda>p. None), execution_enabled = False \<rparr>"


section \<open>Nesting of generated bodies\<close>

text \<open>
  The nesting depth of a value (a scalar has depth 0), and the deepest literal a schema
  can hand over as it is: the values under \<open>const\<close> and \<open>default\<close> and the members of
  \<open>enum\<close>, in any mapping inside the schema.
\<close>

definition list_max :: "nat list \<Rightarrow> nat" where
  "list_max xs = fold max xs 0"

fun jdepth :: "json \<Rightarrow> nat" where
  "jdepth (JObj d) = Suc (list_max (map (\<lambda>kv. jdepth (snd kv)) d))"
| "jdepth (JArr xs) = Suc (list_max (map jdepth xs))"
| "jdepth v = 0"

definition literal_depth :: "string \<times> json \<Rightarrow> nat" where
  "literal_depth e =
     (if fst e = ''const'' \<or> fst e = ''default'' then jdepth (snd e)
      else if fst e = ''enum'' then jdepth (snd e) - 1
      else 0)"

fun lit_depth :: "json \<Rightarrow> nat" where
  "lit_depth (JObj d) = list_max (map (\<lambda>kv. max (literal_depth kv) (lit_depth (snd kv))) d)"
| "lit_depth (JArr xs) = list_max (map lit_depth xs)"
| "lit_depth v = 0"

text \<open>
  Examples: a stand-in for the two libraries, the chain of nested \<open>next\<close> objects, and the
  same chain where every object also requires a property \<open>meta\<close> whose schema has a nested
  default.
\<close>

definition sample_ext :: ext where
  "sample_ext = \<lparr>sha256_hexdigest = (\<lambda>key. ''0000002a''), faker_call = (\<lambda>seed m. ''sample'')\<rparr>"

fun chain :: "nat \<Rightarrow> json" where
  "chain 0 = JObj [(''type'', JStr ''string'')]"
| "chain (Suc n) =
     JObj [(''type'', JStr ''object''), (''required'', JArr [JStr ''next'']),
           (''properties'', JObj [(''next'', chain n)])]"

definition nested_default :: json where
  "nested_default = JObj [(''a'', JObj [(''b'', JInt 1)])]"

fun meta_chain :: "nat \<Rightarrow> json" where
  "meta_chain 0 = JObj [(''type'', JStr ''string'')]"
| "meta_chain (Suc n) =
     JObj [(''type'', JStr ''object''), (''required'', JArr [JStr ''meta'', JStr ''next'']),
           (''properties'', JObj [(''meta'', JObj [(''default'', nested_default)]), (''next'', meta_chain n)])]"


section \<open>The persisted cache (engine.py, ingest.py)\<close>




























section \<open>Endpoint identifiers of extracted operations\<close>

lemma dict_get_dict_set_other:
  "k \<noteq> k' \<Longrightarrow> dict_get (dict_set k v d) k' = dict_get d k'"
  by (simp add: dict_get_def dict_set_def update_conv')

lemma make_operation_fields:
  assumes "make_operation sid pth pp meth opn = Inr op"
  shows "spec_id op = sid \<and> op_method op = meth \<and> path op = pth
       \<and> operation_id op = (case dict_get opn ''operationId'' of JStr s \<Rightarrow> Some s | _ \<Rightarrow> None)
       \<and> dict_get (operation op) ''operationId'' = dict_get opn ''operationId''"
  using assms
  by (auto simp: make_operation_def Let_def dict_get_dict_set_other split: sum.splits if_splits)

lemma make_operation_rule:
  assumes "make_operation sid pth pp meth opn = Inr op"
  shows "op_key_rule sid op"
  using make_operation_fields [OF assms]
  by (auto simp: op_key_rule_def op_key_def split: json.splits)

lemma extract_methods_rule:
  "extract_methods sid pth item ms = Inr ops \<Longrightarrow> op \<in> set ops \<Longrightarrow> op_key_rule sid op"
proof (induction ms arbitrary: ops)
  case Nil
  then show ?case by simp
next
  case (Cons m ms)
  then show ?case
    by (auto split: json.splits sum.splits dest: make_operation_rule)
qed

lemma extract_paths_rule:
  "extract_paths sid ps = Inr ops \<Longrightarrow> op \<in> set ops \<Longrightarrow> op_key_rule sid op"
proof (induction sid ps arbitrary: ops rule: extract_paths.induct)
  case (1 sid)
  then show ?case by simp
next
  case (2 sid pth path_item rest)
  then show ?case
    by (auto split: json.splits sum.splits dest: extract_methods_rule)
qed

text \<open>
  C9. Every operation that \<open>_extract_operations\<close> emits for a spec carries that spec's
  id, and its endpoint id is decided by the \<open>operationId\<close> entry of its own raw mapping:
  a non-empty string gives \<open>spec_id:operationId\<close>; the empty string, a value that is not
  a string, or a missing key gives \<open>spec_id:method:path\<close>.
\<close>

theorem op_key_falsy_operation_id:
  assumes "extract_operations sid spec = Inr ops" and "op \<in> set ops"
  shows "spec_id op = sid \<and>
         (case dict_get (operation op) ''operationId'' of
            JStr s \<Rightarrow>
              op_key op = (if s = [] then sid @ '':'' @ op_method op @ '':'' @ path op else sid @ '':'' @ s)
          | _ \<Rightarrow> op_key op = sid @ '':'' @ op_method op @ '':'' @ path op)"
proof -
  have "op_key_rule sid op"
    using assms
    by (auto simp: extract_operations_def split: json.splits sum.splits dest: extract_paths_rule)
  then show ?thesis
    by (auto simp: op_key_rule_def split: json.splits)
qed


theorem op_key_falsy_operation_id_witness:
  "extract_operations ''pets''
     (JObj [(''paths'', JObj [(''/pets'', JObj [(''get'', JObj [(''operationId'', JStr [])])])])])
     = Inr [\<lparr> spec_id = ''pets'', operation_id = Some [], op_method = ''get'', path = ''/pets'',
               summary = JNull, description = JNull, tags = [],
               operation = [(''operationId'', JStr [])] \<rparr>]
   \<and> op_key \<lparr> spec_id = ''pets'', operation_id = Some [], op_method = ''get'', path = ''/pets'',
               summary = JNull, description = JNull, tags = [],
               operation = [(''operationId'', JStr [])] \<rparr> = ''pets:get:/pets''"
proof -
  let ?spec = "JObj [(''paths'', JObj [(''/pets'', JObj [(''get'', JObj [(''operationId'', JStr [])])])])]"
  let ?op = "\<lparr> spec_id = ''pets'', operation_id = Some [], op_method = ''get'', path = ''/pets'',
               summary = JNull, description = JNull, tags = [],
               operation = [(''operationId'', JStr [])] \<rparr>"
  have e: "extract_operations ''pets'' ?spec = Inr [?op]"
    by code_simp
  have m: "?op \<in> set [?op]"
    by simp
  from op_key_falsy_operation_id [OF e m] show ?thesis
    using e by (simp add: dict_get_def)
qed

section \<open>Query sanitization\<close>

lemma isspace_space: "isspace CHR '' ''"
  by (simp add: isspace_def)

lemma rstrip_Nil_iff: "rstrip s = [] \<longleftrightarrow> (\<forall>c\<in>set s. isspace c)"
  by (induction s) (auto simp: Let_def)

lemma split_from_all_space:
  "\<forall>c\<in>set s. isspace c \<Longrightarrow> split_from cur s = split_from cur []"
  by (induction s arbitrary: cur) auto

lemma split_from_nonempty: "w \<in> set (split_from cur s) \<Longrightarrow> w \<noteq> []"
  by (induction s arbitrary: cur) (auto split: if_splits)

lemma py_join_Nil_iff: "\<forall>w\<in>set ws. w \<noteq> [] \<Longrightarrow> py_join sep ws = [] \<longleftrightarrow> ws = []"
  by (induction sep ws rule: py_join.induct) auto

lemma py_join_Cons: "py_join sep (x # xs) = (if xs = [] then x else x @ sep @ py_join sep xs)"
  by (cases xs) auto

lemma lstrip_collapse: "lstrip (collapse_ws b s) = collapse_ws True s"
  by (induction s arbitrary: b) (auto simp: lstrip_def isspace_space)

lemma rstrip_Cons_nonspace: "\<not> isspace c \<Longrightarrow> rstrip (c # cs) = c # rstrip cs"
  by (simp add: Let_def)

lemma rstrip_append_nonspace: "\<forall>x\<in>set cur. \<not> isspace x \<Longrightarrow> rstrip (cur @ s) = cur @ rstrip s"
  by (induction cur) (auto simp: Let_def)

lemma join_split_collapse:
  "\<forall>x\<in>set cur. \<not> isspace x \<Longrightarrow>
   py_join '' '' (split_from cur s) =
     (if cur = [] then rstrip (collapse_ws True s) else cur @ rstrip (collapse_ws False s))"
proof (induction s arbitrary: cur)
  case Nil
  then show ?case by simp
next
  case (Cons c cs)
  have tok: "\<forall>w\<in>set (split_from [] cs). w \<noteq> []"
    using split_from_nonempty by blast
  have e: "py_join '' '' (split_from [] cs) = rstrip (collapse_ws True cs)"
    using Cons.IH [of "[]"] by simp
  show ?case
  proof (cases "isspace c")
    case True
    show ?thesis
    proof (cases "cur = []")
      case True
      with \<open>isspace c\<close> e show ?thesis by simp
    next
      case False
      have "py_join '' '' (cur # split_from [] cs) =
            cur @ (if split_from [] cs = [] then [] else '' '' @ rstrip (collapse_ws True cs))"
        using e by (simp add: py_join_Cons)
      moreover have "split_from [] cs = [] \<longleftrightarrow> rstrip (collapse_ws True cs) = []"
        using py_join_Nil_iff [OF tok, of "'' ''"] e by simp
      ultimately show ?thesis
        using False \<open>isspace c\<close> by (simp add: Let_def isspace_space)
    qed
  next
    case False
    have "\<forall>x\<in>set (cur @ [c]). \<not> isspace x"
      using Cons.prems False by simp
    from Cons.IH [OF this] show ?thesis
      using False by (simp add: Let_def)
  qed
qed

lemma join_split_eq: "py_join '' '' (py_split s) = py_strip (collapse_ws False s)"
  using join_split_collapse [of "[]" s]
  by (simp add: py_split_def py_strip_def lstrip_collapse)

lemma clean_char_space: "isspace c \<Longrightarrow> clean_char c = c"
  by (simp add: clean_char_def)

lemma isspace_clean_char: "isspace c \<Longrightarrow> isspace (clean_char c)"
  by (simp add: clean_char_def)

lemma split_clean_rstrip: "split_from cur (map clean_char (rstrip s)) = split_from cur (map clean_char s)"
proof (induction s arbitrary: cur)
  case Nil
  then show ?case by simp
next
  case (Cons c cs)
  show ?case
  proof (cases "rstrip cs = [] \<and> isspace c")
    case True
    then have "\<forall>x\<in>set (map clean_char (c # cs)). isspace x"
      by (auto simp: rstrip_Nil_iff isspace_clean_char)
    from split_from_all_space [OF this] True show ?thesis
      by (simp add: Let_def)
  next
    case False
    then show ?thesis
      using Cons.IH by (auto simp: Let_def)
  qed
qed

lemma split_clean_lstrip: "split_from [] (map clean_char (lstrip s)) = split_from [] (map clean_char s)"
  by (induction s) (auto simp: lstrip_def clean_char_space)

lemma split_clean_strip: "py_split (map clean_char (py_strip s)) = py_split (map clean_char s)"
  by (simp add: py_split_def py_strip_def split_clean_rstrip split_clean_lstrip)

lemma sanitize_eq:
  "sanitize_fts_query q = (if normalize_query q = [] then [] else [CHR 0x22] @ normalize_query q @ [CHR 0x22])"
proof -
  have r: "replace_specials q = map clean_char q"
    by (auto simp: replace_specials_def clean_char_def)
  have "py_join '' '' (py_split (map clean_char (py_strip q))) = normalize_query q"
    by (simp add: split_clean_strip join_split_eq normalize_query_def r)
  then show ?thesis
    by (simp add: sanitize_fts_query_def Let_def )
qed


text \<open>
  C7. \<open>search_operations\<close> and \<open>search_schemas\<close> normalize the query (specials to
  spaces, runs of white space to one space, trimmed); when the normalized text is empty
  the result is the empty list whatever the full-text engine would answer, otherwise the
  engine is asked for the normalized text between double quotes.
\<close>

theorem search_normalizes_query:
  "search_operations fts query sid limit =
     (if normalize_query query = [] then []
      else map row_to_operation_match
             (fts ([CHR 0x22] @ normalize_query query @ [CHR 0x22]) (spec_filter sid) limit))
   \<and> search_schemas fts' query sid limit =
     (if normalize_query query = [] then []
      else map row_to_schema_match
             (fts' ([CHR 0x22] @ normalize_query query @ [CHR 0x22]) (spec_filter sid) limit))"
  by (simp add: search_operations_def search_schemas_def sanitize_eq Let_def)

theorem search_normalizes_query_witness:
  "normalize_query ''foo*bar'' = ''foo bar''
   \<and> search_schemas
         (\<lambda>q s l. if q = [CHR 0x22] @ ''foo bar'' @ [CHR 0x22]
                  then [\<lparr> srow_spec_id = ''pets'', srow_schema_name = ''Foo'', srow_description = JStr ''foo bar'' \<rparr>]
                  else [])
         ''foo*bar'' None 25
       = [JObj [(''specId'', JStr ''pets''), (''schemaName'', JStr ''Foo''), (''description'', JStr ''foo bar'')]]
   \<and> normalize_query '' ** '' = []
   \<and> search_schemas
         (\<lambda>q s l. [\<lparr> srow_spec_id = ''pets'', srow_schema_name = ''Foo'', srow_description = JNull \<rparr>])
         '' ** '' None 25 = []"
proof -
  have a: "normalize_query ''foo*bar'' = ''foo bar''"
    by code_simp
  have b: "normalize_query '' ** '' = []"
    by code_simp
  show ?thesis
    using search_normalizes_query [of "\<lambda>q s l. []" "''foo*bar''" None 25
        "\<lambda>q s l. if q = [CHR 0x22] @ ''foo bar'' @ [CHR 0x22]
                  then [\<lparr> srow_spec_id = ''pets'', srow_schema_name = ''Foo'', srow_description = JStr ''foo bar'' \<rparr>]
                  else []"]
      search_normalizes_query [of "\<lambda>q s l. []" "'' ** ''" None 25
        "\<lambda>q s l. [\<lparr> srow_spec_id = ''pets'', srow_schema_name = ''Foo'', srow_description = JNull \<rparr>]"]
    by (simp add: a b row_to_schema_match_def)
qed

section \<open>Spec ids are unique and assigned in discovery order\<close>

lemma next_free_props:
  "suffixed b (next_free b used n) |\<notin>| used \<and> n \<le> next_free b used n
   \<and> (\<forall>j. n \<le> j \<and> j < next_free b used n \<longrightarrow> suffixed b j |\<in>| used)"
proof (induction b used n rule: next_free.induct)
  case (1 b used n)
  show ?case
  proof (cases "suffixed b n |\<in>| used")
    case True
    have e: "next_free b used n = next_free b used (n + 1)"
      using True by (subst next_free.simps) simp
    have "\<And>j. n \<le> j \<Longrightarrow> j < next_free b used (n + 1) \<Longrightarrow> suffixed b j |\<in>| used"
    proof -
      fix j assume "n \<le> j" and "j < next_free b used (n + 1)"
      then show "suffixed b j |\<in>| used"
        using "1.IH" [OF True] True by (cases "j = n") auto
    qed
    then show ?thesis
      using "1.IH" [OF True] e by auto
  next
    case False
    then have "next_free b used n = n"
      by (subst next_free.simps) simp
    with False show ?thesis by auto
  qed
qed

lemma ensure_unique_fresh: "ensure_unique b used |\<notin>| used"
  using next_free_props [of b used 2] by (simp add: ensure_unique_def)

lemma base_spec_id_eq:
  "base_spec_id p raw =
     (case x_spec_id raw of
        JStr v \<Rightarrow> (if py_strip v \<noteq> [] then py_strip v else default_spec_id p)
      | _ \<Rightarrow> default_spec_id p)"
  by (simp add: base_spec_id_def spec_id_override_def x_spec_id_def split: json.splits)

lemma ensure_unique_assigned:
  "fset used = set earlier \<Longrightarrow>
   spec_id_assigned (p, Inr raw) earlier (ensure_unique (base_spec_id p raw) used)"
proof -
  assume u: "fset used = set earlier"
  let ?b = "base_spec_id p raw"
  let ?k = "next_free ?b used 2"
  have m: "\<And>x. x |\<in>| used \<longleftrightarrow> x \<in> set earlier"
    using u by auto
  show ?thesis
  proof (cases "?b |\<in>| used")
    case False
    then show ?thesis
      using m by (simp add: spec_id_assigned_def ensure_unique_def base_spec_id_eq [symmetric])
  next
    case True
    have "2 \<le> ?k \<and> suffixed ?b ?k \<notin> set earlier
          \<and> (\<forall>j. 2 \<le> j \<and> j < ?k \<longrightarrow> suffixed ?b j \<in> set earlier)"
      using next_free_props [of ?b used 2] m by simp
    then have "\<exists>k\<ge>2. suffixed ?b ?k = ?b @ ''-'' @ str_nat k \<and> suffixed ?b ?k \<notin> set earlier
                 \<and> (\<forall>j. 2 \<le> j \<and> j < k \<longrightarrow> ?b @ ''-'' @ str_nat j \<in> set earlier)"
      by (intro exI [of _ ?k]) (simp add: suffixed_def)
    then show ?thesis
      using True m
      by (simp add: spec_id_assigned_def ensure_unique_def base_spec_id_eq [symmetric] Let_def)
  qed
qed

lemma build_from_props:
  "build_from relpath files used = Inr specs \<Longrightarrow> fset used = set earlier \<Longrightarrow>
   length specs = length files
   \<and> distinct (map sf_spec_id specs)
   \<and> (\<forall>s\<in>set specs. sf_spec_id s |\<notin>| used)
   \<and> (\<forall>i<length files. spec_id_assigned (files ! i) (earlier @ take i (map sf_spec_id specs)) (sf_spec_id (specs ! i)))
   \<and> (\<forall>n. build_from relpath (take n files) used = Inr (take n specs))"
proof (induction relpath files used arbitrary: specs earlier rule: build_from.induct)
  case (1 relpath used_ids)
  then show ?case by simp
next
  case (2 relpath p loaded files used_ids)
  from "2.prems"(1) obtain raw where raw: "loaded = Inr raw"
    by (cases loaded) auto
  let ?sid = "ensure_unique (base_spec_id p raw) used_ids"
  let ?sf = "\<lparr> sf_path = p, sf_relative_path = relpath p, sf_raw = raw, sf_spec_id = ?sid \<rparr>"
  from "2.prems"(1) raw obtain rest where
    rest: "build_from relpath files (finsert ?sid used_ids) = Inr rest" and specs: "specs = ?sf # rest"
    by (auto simp: Let_def split: sum.splits)
  have u: "fset (finsert ?sid used_ids) = set (earlier @ [?sid])"
    using "2.prems"(2) by simp
  note IH = "2.IH" [OF raw refl rest u]
  have fresh: "?sid |\<notin>| used_ids"
    by (rule ensure_unique_fresh)
  have len: "length specs = length ((p, loaded) # files)"
    using IH specs by simp
  have dist: "distinct (map sf_spec_id specs)"
    using IH specs by auto
  have notin: "\<forall>s\<in>set specs. sf_spec_id s |\<notin>| used_ids"
    using IH specs fresh by auto
  have asg: "\<forall>i<length ((p, loaded) # files).
      spec_id_assigned (((p, loaded) # files) ! i) (earlier @ take i (map sf_spec_id specs)) (sf_spec_id (specs ! i))"
  proof (intro allI impI)
    fix i assume i: "i < length ((p, loaded) # files)"
    show "spec_id_assigned (((p, loaded) # files) ! i) (earlier @ take i (map sf_spec_id specs)) (sf_spec_id (specs ! i))"
    proof (cases i)
      case 0
      then show ?thesis
        using ensure_unique_assigned [OF "2.prems"(2), of p raw] raw specs by simp
    next
      case (Suc j)
      with i have "j < length files" by simp
      with IH have "spec_id_assigned (files ! j) ((earlier @ [?sid]) @ take j (map sf_spec_id rest)) (sf_spec_id (rest ! j))"
        by blast
      then show ?thesis
        using Suc specs by simp
    qed
  qed
  have pre: "\<forall>n. build_from relpath (take n ((p, loaded) # files)) used_ids = Inr (take n specs)"
  proof
    fix n
    show "build_from relpath (take n ((p, loaded) # files)) used_ids = Inr (take n specs)"
    proof (cases n)
      case 0
      then show ?thesis by simp
    next
      case (Suc m)
      have "build_from relpath (take m files) (finsert ?sid used_ids) = Inr (take m rest)"
        using IH by blast
      then show ?thesis
        using Suc raw specs by (simp add: Let_def)
    qed
  qed
  from len dist notin asg pre show ?case by blast
qed

text \<open>
  C8 (amended). When every discovered file parses, \<open>build_spec_files\<close> gives each file,
  in discovery order, the id described by \<open>spec_id_assigned\<close>: the trimmed
  \<open>info.x-spec-id\<close> when it is a string that is not empty after trimming, else the base
  name without extension, with the least free suffix \<open>-2\<close>, \<open>-3\<close>, ... on a collision with
  an earlier file. The ids are pairwise distinct, and the ids of a prefix of the files do
  not depend on the files after it.
\<close>

theorem spec_ids_assigned:
  assumes "build_spec_files relpath files = Inr specs"
  shows "length specs = length files
       \<and> distinct (map sf_spec_id specs)
       \<and> (\<forall>i<length files. spec_id_assigned (files ! i) (take i (map sf_spec_id specs)) (sf_spec_id (specs ! i)))
       \<and> (\<forall>n. build_spec_files relpath (take n files) = Inr (take n specs))"
  using build_from_props [of relpath files "{||}" specs "[]"] assms
  by (simp add: build_spec_files_def)


theorem spec_ids_assigned_witness:
  "build_spec_files (\<lambda>p. p) [(''s/a.yaml'', Inr JNull), (''s/b/a.json'', Inr JNull)]
     = Inr [\<lparr> sf_path = ''s/a.yaml'', sf_relative_path = ''s/a.yaml'', sf_raw = JNull, sf_spec_id = ''a'' \<rparr>,
            \<lparr> sf_path = ''s/b/a.json'', sf_relative_path = ''s/b/a.json'', sf_raw = JNull, sf_spec_id = ''a-2'' \<rparr>]
   \<and> distinct [''a'', ''a-2'']
   \<and> spec_id_assigned (''s/b/a.json'', Inr JNull) [''a''] ''a-2''"
proof -
  let ?files = "[(''s/a.yaml'', Inr JNull), (''s/b/a.json'', Inr JNull)] :: (string \<times> (py_error + json)) list"
  let ?specs = "[\<lparr> sf_path = ''s/a.yaml'', sf_relative_path = ''s/a.yaml'', sf_raw = JNull, sf_spec_id = ''a'' \<rparr>,
            \<lparr> sf_path = ''s/b/a.json'', sf_relative_path = ''s/b/a.json'', sf_raw = JNull, sf_spec_id = ''a-2'' \<rparr>]"
  have e: "build_spec_files (\<lambda>p. p) ?files = Inr ?specs"
    by code_simp
  note r = spec_ids_assigned [OF e]
  have d: "distinct (map sf_spec_id ?specs)"
    by (rule r [THEN conjunct2, THEN conjunct1])
  have a: "\<forall>i<length ?files. spec_id_assigned (?files ! i) (take i (map sf_spec_id ?specs)) (sf_spec_id (?specs ! i))"
    by (rule r [THEN conjunct2, THEN conjunct2, THEN conjunct1])
  have "spec_id_assigned (?files ! 1) (take 1 (map sf_spec_id ?specs)) (sf_spec_id (?specs ! 1))"
    by (rule a [rule_format]) simp
  with d e show ?thesis
    by simp
qed

text \<open>
  The override is trimmed: a file whose \<open>info.x-spec-id\<close> is \<open>" a "\<close> gets the id \<open>"a"\<close>,
  not the value itself.
\<close>

theorem spec_id_override_counterexample:
  "x_spec_id (JObj [(''info'', JObj [(''x-spec-id'', JStr '' a '')])]) = JStr '' a ''
   \<and> build_spec_files (\<lambda>p. p) [(''s/pets.yaml'', Inr (JObj [(''info'', JObj [(''x-spec-id'', JStr '' a '')])]))]
     = Inr [\<lparr> sf_path = ''s/pets.yaml'', sf_relative_path = ''s/pets.yaml'',
              sf_raw = JObj [(''info'', JObj [(''x-spec-id'', JStr '' a '')])], sf_spec_id = ''a'' \<rparr>]
   \<and> ''a'' \<noteq> '' a ''"
  by code_simp


section \<open>Retrieval fusion ranks by score, then by id\<close>

lemma rank_from_None_iff: "rank_from r ids x = None \<longleftrightarrow> x \<notin> set ids"
  by (induction ids arbitrary: r) auto

lemma accumulate_keys:
  "fst ` set (accumulate ops w k r ids scores) = fst ` set scores \<union> set ids"
  by (induction ids arbitrary: r scores) (auto simp: dom_update image_iff)


lemma accumulate_distinct:
  "distinct (map fst scores) \<Longrightarrow> distinct (map fst (accumulate ops w k r ids scores))"
  by (induction ids arbitrary: r scores) (auto simp: distinct_update)

lemma accumulate_lookup:
  "distinct ids \<Longrightarrow>
   map_of (accumulate ops w k r ids scores) x =
     (case rank_from r ids x of
        None \<Rightarrow> map_of scores x
      | Some q \<Rightarrow>
          Some (f_add ops (case map_of scores x of None \<Rightarrow> f_lit ops 0 | Some s \<Rightarrow> s)
                          (f_div ops w (k + q))))"
proof (induction ids arbitrary: r scores)
  case Nil
  then show ?case by simp
next
  case (Cons e es)
  then have d: "distinct es" and n: "e \<notin> set es"
    by auto
  show ?case
  proof (cases "x = e")
    case True
    have "rank_from (r + 1) es e = None"
      using n by (simp add: rank_from_None_iff)
    then show ?thesis
      using True Cons.IH [OF d, of "r + 1"] by (simp add: update_conv' split: option.splits)
  next
    case False
    then show ?thesis
      using Cons.IH [OF d, of "r + 1"] by (simp add: update_conv' split: option.splits)
  qed
qed

lemma fused_scores:
  fixes ops :: "'f float_ops"
  assumes "distinct fts_ids" and "distinct semantic_ids"
    and z: "\<forall>x. f_add ops (f_lit ops 0) x = x \<and> f_add ops x (f_lit ops 0) = x"
  defines "scores \<equiv> accumulate ops (f_lit ops (3 / 10)) 60 1 semantic_ids
                       (accumulate ops (f_lit ops (7 / 10)) 60 1 fts_ids [])"
  shows "map_of scores x =
           (if x \<in> set fts_ids \<union> set semantic_ids then Some (rrf_score ops fts_ids semantic_ids x) else None)"
proof -
  have 1: "map_of (accumulate ops (f_lit ops (7 / 10)) 60 1 fts_ids []) x =
        (case rank_from 1 fts_ids x of None \<Rightarrow> None
         | Some q \<Rightarrow> Some (f_div ops (f_lit ops (7 / 10)) (60 + q)))"
    using accumulate_lookup [OF assms(1), of ops _ 60 1 "[]" x] z
    by (simp split: option.splits)
  show ?thesis
    unfolding scores_def accumulate_lookup [OF assms(2)] 1
    using z rank_from_None_iff [of 1 fts_ids x] rank_from_None_iff [of 1 semantic_ids x]
    by (auto simp: rrf_score_def contribution_def split: option.splits)
qed

lemma sort_key_unique:
  assumes "inj_on f (set xs \<union> set ys)" and "set xs = set ys" and "distinct xs" and "distinct ys"
  shows "sort_key f xs = sort_key f ys"
proof -
  have "map f (sort_key f xs) = map f (sort_key f ys)"
  proof (rule sorted_distinct_set_unique)
    show "distinct (map f (sort_key f xs))"
      using assms by (simp add: distinct_map inj_on_subset)
    show "distinct (map f (sort_key f ys))"
      using assms by (simp add: distinct_map inj_on_subset)
    show "set (map f (sort_key f xs)) = set (map f (sort_key f ys))"
      using assms by simp
  qed simp_all
  then show ?thesis
    using assms(1) by (auto intro: map_inj_on [of f] inj_on_subset)
qed

lemma sort_key_map_fst:
  assumes "\<forall>p\<in>set ps. g (fst p) = h p"
  shows "map fst (sort_key h ps) = sort_key g (map fst ps)"
  using assms
proof (induction ps)
  case Nil
  then show ?case by simp
next
  case (Cons p ps)
  have ins: "\<And>qs. \<forall>q\<in>set qs. g (fst q) = h q \<Longrightarrow> map fst (insort_key h p qs) = insort_key g (fst p) (map fst qs)"
  proof -
    fix qs show "\<forall>q\<in>set qs. g (fst q) = h q \<Longrightarrow> map fst (insort_key h p qs) = insort_key g (fst p) (map fst qs)"
      using Cons.prems by (induction qs) auto
  qed
  show ?case
    using Cons ins [of "sort_key h ps"] by simp
qed

lemma fused_ranking:
  fixes ops :: "('f::linorder) float_ops"
  assumes df: "distinct fts_ids" and ds: "distinct semantic_ids"
    and z: "\<forall>x. f_add ops (f_lit ops 0) x = x \<and> f_add ops x (f_lit ops 0) = x"
  shows "map fst (sort_key (\<lambda>item. (f_neg ops (snd item), fst item))
           (accumulate ops (f_lit ops (3 / 10)) 60 1 semantic_ids
              (accumulate ops (f_lit ops (7 / 10)) 60 1 fts_ids [])))
         = sort_key (\<lambda>x. (f_neg ops (rrf_score ops fts_ids semantic_ids x), x)) (remdups (fts_ids @ semantic_ids))"
proof -
  let ?scores = "accumulate ops (f_lit ops (3 / 10)) 60 1 semantic_ids
              (accumulate ops (f_lit ops (7 / 10)) 60 1 fts_ids [])"
  let ?g = "\<lambda>x. (f_neg ops (rrf_score ops fts_ids semantic_ids x), x)"
  have keys: "set (map fst ?scores) = set fts_ids \<union> set semantic_ids"
    by (simp add: accumulate_keys Un_commute)
  have dist: "distinct (map fst ?scores)"
    by (simp add: accumulate_distinct)
  have val: "\<forall>p\<in>set ?scores. ?g (fst p) = (f_neg ops (snd p), fst p)"
  proof
    fix p assume p: "p \<in> set ?scores"
    then have "map_of ?scores (fst p) = Some (snd p)"
      using dist by simp
    then have "snd p = rrf_score ops fts_ids semantic_ids (fst p)"
      using fused_scores [OF df ds z, of "fst p"] by (simp split: if_splits)
    then show "?g (fst p) = (f_neg ops (snd p), fst p)"
      by simp
  qed
  have "map fst (sort_key (\<lambda>item. (f_neg ops (snd item), fst item)) ?scores) = sort_key ?g (map fst ?scores)"
    by (rule sort_key_map_fst) (use val in blast)
  also have "\<dots> = sort_key ?g (remdups (fts_ids @ semantic_ids))"
  proof (rule sort_key_unique)
    show "inj_on ?g (set (map fst ?scores) \<union> set (remdups (fts_ids @ semantic_ids)))"
      by (rule inj_onI) simp
    show "set (map fst ?scores) = set (remdups (fts_ids @ semantic_ids))"
      using keys by simp
  qed (use dist in simp_all)
  finally show ?thesis .
qed

text \<open>
  C6. For ranked id lists (no id twice in a list), a non-negative limit, and any float
  arithmetic in which \<open>0.0\<close> is neutral for addition and the unary minus reverses the
  order: \<open>_rrf_merge\<close> with its defaults returns the first \<open>limit\<close> ids of the fused ids
  sorted by \<open>(-score, id)\<close>, where \<open>score(id) = 0.7/(60 + rank_fts) + 0.3/(60 + rank_sem)\<close>
  and a missing rank contributes \<open>0.0\<close>; so of two returned ids the one with the greater
  score comes first, and with equal scores the lexicographically smaller id.
\<close>

theorem rrf_merge_ranking:
  fixes ops :: "('f::linorder) float_ops"
  assumes df: "distinct fts_ids" and ds: "distinct semantic_ids" and lim: "0 \<le> limit"
    and z: "\<forall>x. f_add ops (f_lit ops 0) x = x \<and> f_add ops x (f_lit ops 0) = x"
    and neg: "\<forall>x y. (f_neg ops x \<le> f_neg ops y) = (y \<le> x)"
  shows "rrf_merge_default ops fts_ids semantic_ids limit =
           take (nat limit)
             (sort_key (\<lambda>x. (f_neg ops (rrf_score ops fts_ids semantic_ids x), x))
                (remdups (fts_ids @ semantic_ids)))
       \<and> (\<forall>i j. i < j \<and> j < length (rrf_merge_default ops fts_ids semantic_ids limit) \<longrightarrow>
             (let a = rrf_merge_default ops fts_ids semantic_ids limit ! i;
                  b = rrf_merge_default ops fts_ids semantic_ids limit ! j
              in rrf_score ops fts_ids semantic_ids b < rrf_score ops fts_ids semantic_ids a
                 \<or> (rrf_score ops fts_ids semantic_ids a = rrf_score ops fts_ids semantic_ids b \<and> a < b)))"
proof -
  let ?g = "\<lambda>x. (f_neg ops (rrf_score ops fts_ids semantic_ids x), x)"
  let ?L = "sort_key ?g (remdups (fts_ids @ semantic_ids))"
  let ?out = "rrf_merge_default ops fts_ids semantic_ids limit"
  have out: "?out = take (nat limit) ?L"
    using lim fused_ranking [OF df ds z]
    by (simp add: rrf_merge_default_def rrf_merge_def slice_to_def Let_def take_map [symmetric])
  have srt: "sorted (map ?g ?L)"
    by (rule sorted_sort_key)
  have dst: "distinct ?L"
    by simp
  have ord: "\<And>i j. i < j \<Longrightarrow> j < length ?out \<Longrightarrow>
      rrf_score ops fts_ids semantic_ids (?out ! j) < rrf_score ops fts_ids semantic_ids (?out ! i)
      \<or> (rrf_score ops fts_ids semantic_ids (?out ! i) = rrf_score ops fts_ids semantic_ids (?out ! j)
          \<and> ?out ! i < ?out ! j)"
  proof -
    fix i j assume ij: "i < j" and j: "j < length ?out"
    have jl: "j < length ?L" and jn: "j < nat limit"
      using j out by simp_all
    have oi: "?out ! i = ?L ! i" and oj: "?out ! j = ?L ! j"
      using ij jn out by simp_all
    have le: "?g (?L ! i) \<le> ?g (?L ! j)"
      using sorted_nth_mono [OF srt, of i j] ij jl by simp
    have ne: "?L ! i \<noteq> ?L ! j"
      using dst ij jl by (simp add: nth_eq_iff_index_eq)
    let ?si = "rrf_score ops fts_ids semantic_ids (?L ! i)"
    let ?sj = "rrf_score ops fts_ids semantic_ids (?L ! j)"
    from le have "f_neg ops ?si < f_neg ops ?sj \<or> (f_neg ops ?si \<le> f_neg ops ?sj \<and> ?L ! i \<le> ?L ! j)"
      by (simp add: less_eq_prod_def)
    moreover have "f_neg ops ?si < f_neg ops ?sj \<longleftrightarrow> ?sj < ?si"
      using neg by (simp add: less_le_not_le)
    moreover have "f_neg ops ?si \<le> f_neg ops ?sj \<longleftrightarrow> ?sj \<le> ?si"
      using neg by simp
    ultimately have "?sj < ?si \<or> (?si = ?sj \<and> ?L ! i < ?L ! j)"
      using ne by auto
    then show "rrf_score ops fts_ids semantic_ids (?out ! j) < rrf_score ops fts_ids semantic_ids (?out ! i)
      \<or> (rrf_score ops fts_ids semantic_ids (?out ! i) = rrf_score ops fts_ids semantic_ids (?out ! j)
          \<and> ?out ! i < ?out ! j)"
      by (simp only: oi oj)
  qed
  show ?thesis
    using out ord by (simp add: Let_def)
qed

theorem rrf_merge_ranking_witness:
  "rrf_merge_default rat_ops [''b'', ''a'', ''c''] [''c'', ''d''] 3 = [''c'', ''b'', ''a'']
   \<and> rrf_score rat_ops [''b'', ''a'', ''c''] [''c'', ''d''] ''c'' = 7 / 10 / 63 + 3 / 10 / 61
   \<and> rrf_score rat_ops [''b'', ''a'', ''c''] [''c'', ''d''] ''b'' = 7 / 10 / 61
   \<and> take (nat 3) (sort_key (\<lambda>x. (f_neg rat_ops (rrf_score rat_ops [''b'', ''a'', ''c''] [''c'', ''d''] x), x))
                (remdups ([''b'', ''a'', ''c''] @ [''c'', ''d''])))
       = [''c'', ''b'', ''a'']"
proof -
  have df: "distinct [''b'', ''a'', ''c'']" and ds: "distinct [''c'', ''d'']" and lim: "(0::int) \<le> 3"
    by simp_all
  have z: "\<forall>x. f_add rat_ops (f_lit rat_ops 0) x = x \<and> f_add rat_ops x (f_lit rat_ops 0) = x"
    by (simp add: rat_ops_def)
  have neg: "\<forall>x y. (f_neg rat_ops x \<le> f_neg rat_ops y) = (y \<le> x)"
    by (simp add: rat_ops_def)
  have e: "rrf_merge_default rat_ops [''b'', ''a'', ''c''] [''c'', ''d''] 3 = [''c'', ''b'', ''a'']"
    by code_simp
  have s1: "rrf_score rat_ops [''b'', ''a'', ''c''] [''c'', ''d''] ''c'' = 7 / 10 / 63 + 3 / 10 / 61"
    by code_simp
  have s2: "rrf_score rat_ops [''b'', ''a'', ''c''] [''c'', ''d''] ''b'' = 7 / 10 / 61"
    by code_simp
  note r = rrf_merge_ranking [OF df ds lim z neg, THEN conjunct1]
  have t: "take (nat 3) (sort_key (\<lambda>x. (f_neg rat_ops (rrf_score rat_ops [''b'', ''a'', ''c''] [''c'', ''d''] x), x))
                (remdups ([''b'', ''a'', ''c''] @ [''c'', ''d''])))
       = [''c'', ''b'', ''a'']"
    by (rule trans [OF r [symmetric] e])
  show ?thesis
    by (intro conjI e s1 s2 t)
qed


section \<open>Reference resolution: substitution, cycles, unresolvable references\<close>














section \<open>Validation looks at the request body only\<close>

lemma dict_has_dict_set_other: "k \<noteq> k' \<Longrightarrow> dict_has (dict_set k v d) k' = dict_has d k'"
  by (simp add: dict_has_def dict_set_def update_conv')

lemma dict_get_dict_set_same: "dict_get (dict_set k v d) k = v"
  by (simp add: dict_get_def dict_set_def update_conv')

lemma no_schema_no_body:
  "\<not> declares_body_schema opn \<Longrightarrow>
   (case extract_request_body opn spec of None \<Rightarrow> True | Some rb \<Rightarrow> rb_schema rb = JNull)"
  by (auto simp: declares_body_schema_def extract_request_body_def Let_def split: json.splits)

lemma extract_request_body_parameters:
  "extract_request_body (JObj (dict_set ''parameters'' ps op)) spec = extract_request_body (JObj op) spec"
  by (simp add: extract_request_body_def dict_get_dict_set_other)

lemma extract_body_parameters:
  "dict_has request ''body'' \<Longrightarrow> extract_body (dict_set ''parameters'' ps request) = extract_body request"
  by (simp add: extract_body_def dict_get_dict_set_other dict_has_dict_set_other split: json.splits)

lemma extract_body_body: "extract_body [(''body'', b)] = b"
  by (simp add: extract_body_def dict_has_def dict_get_def)

lemma extract_body_wrapper:
  "dict_get request ''request'' = JObj inner \<Longrightarrow> extract_body request = dict_get inner ''body''"
  by (auto simp: extract_body_def dict_has_def dict_get_def split: option.splits)

lemma extract_body_outer_parameters:
  "dict_get request ''request'' = JObj inner \<Longrightarrow>
   extract_body (dict_set ''parameters'' ps request) = extract_body request"
proof -
  assume r: "dict_get request ''request'' = JObj inner"
  then have "dict_get (dict_set ''parameters'' ps request) ''request'' = JObj inner"
    by (simp add: dict_get_dict_set_other)
  then show ?thesis
    using r by (simp add: extract_body_wrapper)
qed

lemma extract_body_inner_parameters:
  "dict_get request ''request'' = JObj inner \<Longrightarrow>
   extract_body (dict_set ''request'' (JObj (dict_set ''parameters'' ps inner)) request) = extract_body request"
proof -
  assume r: "dict_get request ''request'' = JObj inner"
  have "dict_get (dict_set ''request'' (JObj (dict_set ''parameters'' ps inner)) request) ''request''
        = JObj (dict_set ''parameters'' ps inner)"
    by (rule dict_get_dict_set_same)
  then have "extract_body (dict_set ''request'' (JObj (dict_set ''parameters'' ps inner)) request)
             = dict_get (dict_set ''parameters'' ps inner) ''body''"
    by (rule extract_body_wrapper)
  then show ?thesis
    using r by (simp add: extract_body_wrapper dict_get_dict_set_other)
qed

lemma validate_payload_extract_body:
  "extract_body request = extract_body request' \<Longrightarrow>
   validate_payload iter_errors record request spec_version spec
   = validate_payload iter_errors record request' spec_version spec"
proof -
  assume e: "extract_body request = extract_body request'"
  show ?thesis
    unfolding validate_payload_def e by (rule refl)
qed

text \<open>
  C10. When the operation declares no body schema, \<open>validate_payload\<close> answers
  \<open>{ok: true, errors: []}\<close> for every request. Parameters are never validated: the answer
  does not change when the operation's declared \<open>parameters\<close> are replaced, and for every
  request the answer is the one for the request that consists of its body alone, the
  body being what \<open>_extract_body\<close> takes: the \<open>body\<close> of the \<open>request\<close> wrapper, else the
  \<open>body\<close> entry, else the request itself. So the answer does not change when the
  \<open>parameters\<close> of a request with a wrapper (outside or inside the wrapper) or with a
  \<open>body\<close> entry are replaced; a request with neither is taken whole as the body. The
  same holds of the engine's \<open>payload_validate\<close>.
\<close>

theorem validate_payload_body_only:
  "(\<not> declares_body_schema (dict_get record ''operation'') \<longrightarrow>
      validate_payload iter_errors record request spec_version spec = ok_result)
   \<and> (dict_get record ''operation'' = JObj op \<longrightarrow>
      validate_payload iter_errors (dict_set ''operation'' (JObj (dict_set ''parameters'' ps op)) record)
        request spec_version spec
      = validate_payload iter_errors record request spec_version spec)
   \<and> validate_payload iter_errors record request spec_version spec
      = validate_payload iter_errors record [(''body'', extract_body request)] spec_version spec
   \<and> payload_validate w iter_errors eng endpoint_id request
      = payload_validate w iter_errors eng endpoint_id [(''body'', extract_body request)]
   \<and> (dict_has request ''body'' \<longrightarrow>
      validate_payload iter_errors record (dict_set ''parameters'' ps request) spec_version spec
      = validate_payload iter_errors record request spec_version spec)
   \<and> (dict_get request ''request'' = JObj inner \<longrightarrow>
      validate_payload iter_errors record (dict_set ''parameters'' ps request) spec_version spec
      = validate_payload iter_errors record request spec_version spec
      \<and> validate_payload iter_errors record
          (dict_set ''request'' (JObj (dict_set ''parameters'' ps inner)) request) spec_version spec
      = validate_payload iter_errors record request spec_version spec)
   \<and> (\<not> is_dict (dict_get request ''request'') \<and> \<not> dict_has request ''body'' \<longrightarrow>
      extract_body request = JObj request)"
proof (intro conjI impI)
  assume "\<not> declares_body_schema (dict_get record ''operation'')"
  from no_schema_no_body [OF this, of spec]
  show "validate_payload iter_errors record request spec_version spec = ok_result"
    by (auto simp: validate_payload_def split: option.splits)
next
  assume "dict_get record ''operation'' = JObj op"
  then show "validate_payload iter_errors (dict_set ''operation'' (JObj (dict_set ''parameters'' ps op)) record)
        request spec_version spec
      = validate_payload iter_errors record request spec_version spec"
    by (simp add: validate_payload_def dict_get_dict_set_same extract_request_body_parameters)
next
  show "validate_payload iter_errors record request spec_version spec
      = validate_payload iter_errors record [(''body'', extract_body request)] spec_version spec"
    by (rule validate_payload_extract_body) (simp add: extract_body_body)
next
  have "\<And>record spec_version spec. validate_payload iter_errors record request spec_version spec
      = validate_payload iter_errors record [(''body'', extract_body request)] spec_version spec"
    by (rule validate_payload_extract_body) (simp add: extract_body_body)
  then have e: "\<And>record spec_version spec. validate_payload iter_errors record [(''body'', extract_body request)] spec_version spec
      = validate_payload iter_errors record request spec_version spec"
    by simp
  show "payload_validate w iter_errors eng endpoint_id request
      = payload_validate w iter_errors eng endpoint_id [(''body'', extract_body request)]"
    unfolding payload_validate_def e by (rule refl)
next
  assume b: "dict_has request ''body''"
  show "validate_payload iter_errors record (dict_set ''parameters'' ps request) spec_version spec
      = validate_payload iter_errors record request spec_version spec"
    by (rule validate_payload_extract_body) (rule extract_body_parameters [OF b])
next
  assume r: "dict_get request ''request'' = JObj inner"
  show "validate_payload iter_errors record (dict_set ''parameters'' ps request) spec_version spec
      = validate_payload iter_errors record request spec_version spec"
    by (rule validate_payload_extract_body) (rule extract_body_outer_parameters [OF r])
  show "validate_payload iter_errors record
          (dict_set ''request'' (JObj (dict_set ''parameters'' ps inner)) request) spec_version spec
      = validate_payload iter_errors record request spec_version spec"
    by (rule validate_payload_extract_body) (rule extract_body_inner_parameters [OF r])
next
  assume "\<not> is_dict (dict_get request ''request'') \<and> \<not> dict_has request ''body''"
  then show "extract_body request = JObj request"
    by (cases "dict_get request ''request''") (simp_all add: extract_body_def)
qed

theorem validate_payload_body_only_witness:
  "\<not> declares_body_schema (dict_get [(''operation'', JObj [(''parameters'', JArr [JObj [(''name'', JStr ''id''),
        (''in'', JStr ''path''), (''required'', JBool True), (''schema'', JObj [(''type'', JStr ''integer'')])]])])] ''operation'')
   \<and> validate_payload (\<lambda>d s b. [([], ''never asked'')])
        [(''operation'', JObj [(''parameters'', JArr [JObj [(''name'', JStr ''id''),
        (''in'', JStr ''path''), (''required'', JBool True), (''schema'', JObj [(''type'', JStr ''integer'')])]])])]
        [(''parameters'', JObj [(''path'', JObj [(''id'', JStr ''not a number'')])]), (''body'', JInt 5)]
        JNull JNull
      = ok_result
   \<and> dict_get [(''operation'', JObj [(''requestBody'', JObj [(''content'', JObj [(''application/json'',
          JObj [(''schema'', JObj [(''type'', JStr ''object'')])])])])])] ''operation''
      = JObj [(''requestBody'', JObj [(''content'', JObj [(''application/json'',
          JObj [(''schema'', JObj [(''type'', JStr ''object'')])])])])]
   \<and> validate_payload (\<lambda>d s b. if b = JInt 5 then [([], ''5 is not of type object'')] else [])
        (dict_set ''operation''
           (JObj (dict_set ''parameters'' (JArr [JObj [(''name'', JStr ''id''), (''in'', JStr ''path'')]])
              [(''requestBody'', JObj [(''content'', JObj [(''application/json'',
                 JObj [(''schema'', JObj [(''type'', JStr ''object'')])])])])]))
           [(''operation'', JObj [(''requestBody'', JObj [(''content'', JObj [(''application/json'',
              JObj [(''schema'', JObj [(''type'', JStr ''object'')])])])])])])
        [(''body'', JInt 5)] JNull JNull
      = validate_payload (\<lambda>d s b. if b = JInt 5 then [([], ''5 is not of type object'')] else [])
        [(''operation'', JObj [(''requestBody'', JObj [(''content'', JObj [(''application/json'',
              JObj [(''schema'', JObj [(''type'', JStr ''object'')])])])])])]
        [(''body'', JInt 5)] JNull JNull
   \<and> dict_has [(''body'', JInt 5)] ''body''
   \<and> validate_payload (\<lambda>d s b. if b = JInt 5 then [([], ''5 is not of type object'')] else [])
        [(''operation'', JObj [(''requestBody'', JObj [(''content'', JObj [(''application/json'',
              JObj [(''schema'', JObj [(''type'', JStr ''object'')])])])])])]
        (dict_set ''parameters'' (JObj [(''path'', JObj [(''id'', JStr ''x'')])]) [(''body'', JInt 5)]) JNull JNull
      = validate_payload (\<lambda>d s b. if b = JInt 5 then [([], ''5 is not of type object'')] else [])
        [(''operation'', JObj [(''requestBody'', JObj [(''content'', JObj [(''application/json'',
              JObj [(''schema'', JObj [(''type'', JStr ''object'')])])])])])]
        [(''body'', JInt 5)] JNull JNull
   \<and> dict_get [(''request'', JObj [(''parameters'', JObj [(''query'', JObj [(''q'', JInt 1)])]), (''body'', JInt 5)])]
        ''request''
      = JObj [(''parameters'', JObj [(''query'', JObj [(''q'', JInt 1)])]), (''body'', JInt 5)]
   \<and> validate_payload (\<lambda>d s b. if b = JInt 5 then [([], ''5 is not of type object'')] else [])
        [(''operation'', JObj [(''requestBody'', JObj [(''content'', JObj [(''application/json'',
              JObj [(''schema'', JObj [(''type'', JStr ''object'')])])])])])]
        (dict_set ''request'' (JObj (dict_set ''parameters'' JNull
              [(''parameters'', JObj [(''query'', JObj [(''q'', JInt 1)])]), (''body'', JInt 5)]))
           [(''request'', JObj [(''parameters'', JObj [(''query'', JObj [(''q'', JInt 1)])]), (''body'', JInt 5)])])
        JNull JNull
      = validate_payload (\<lambda>d s b. if b = JInt 5 then [([], ''5 is not of type object'')] else [])
        [(''operation'', JObj [(''requestBody'', JObj [(''content'', JObj [(''application/json'',
              JObj [(''schema'', JObj [(''type'', JStr ''object'')])])])])])]
        [(''request'', JObj [(''parameters'', JObj [(''query'', JObj [(''q'', JInt 1)])]), (''body'', JInt 5)])]
        JNull JNull
   \<and> \<not> is_dict (dict_get [(''parameters'', JObj [])] ''request'') \<and> \<not> dict_has [(''parameters'', JObj [])] ''body''
   \<and> extract_body [(''parameters'', JObj [])] = JObj [(''parameters'', JObj [])]"
proof -
  let ?r1 = "[(''operation'', JObj [(''parameters'', JArr [JObj [(''name'', JStr ''id''),
        (''in'', JStr ''path''), (''required'', JBool True), (''schema'', JObj [(''type'', JStr ''integer'')])]])])]"
  let ?op = "[(''requestBody'', JObj [(''content'', JObj [(''application/json'',
          JObj [(''schema'', JObj [(''type'', JStr ''object'')])])])])]"
  let ?r2 = "[(''operation'', JObj ?op)]"
  let ?inner = "[(''parameters'', JObj [(''query'', JObj [(''q'', JInt 1)])]), (''body'', JInt 5)]"
  let ?flat = "[(''parameters'', JObj [])]"
  have n: "\<not> declares_body_schema (dict_get ?r1 ''operation'')"
    by (simp add: declares_body_schema_def dict_get_def)
  have o: "dict_get ?r2 ''operation'' = JObj ?op"
    by (simp add: dict_get_def)
  have b: "dict_has [(''body'', JInt 5)] ''body''"
    by (simp add: dict_has_def)
  have i: "dict_get [(''request'', JObj ?inner)] ''request'' = JObj ?inner"
    by (simp add: dict_get_def)
  have f: "\<not> is_dict (dict_get ?flat ''request'') \<and> \<not> dict_has ?flat ''body''"
    by (simp add: dict_get_def dict_has_def)
  note c1 = validate_payload_body_only [THEN conjunct1, THEN mp, OF n]
  note c2 = validate_payload_body_only [THEN conjunct2, THEN conjunct1, THEN mp, OF o]
  note c5 = validate_payload_body_only [THEN conjunct2, THEN conjunct2, THEN conjunct2, THEN conjunct2,
      THEN conjunct1, THEN mp, OF b]
  note c6 = validate_payload_body_only [THEN conjunct2, THEN conjunct2, THEN conjunct2, THEN conjunct2,
      THEN conjunct2, THEN conjunct1, THEN mp, OF i, THEN conjunct2]
  note c7 = validate_payload_body_only [THEN conjunct2, THEN conjunct2, THEN conjunct2, THEN conjunct2,
      THEN conjunct2, THEN conjunct2, THEN mp, OF f]
  have f1: "\<not> is_dict (dict_get ?flat ''request'')" and f2: "\<not> dict_has ?flat ''body''"
    using f by blast+
  show ?thesis
    by (intro conjI n o b i f1 f2 c1 c2 c5 c6 c7)
qed


section \<open>Unknown endpoint ids\<close>

text \<open>
  C4 (amended). On an engine whose index holds its tables, for an endpoint id that the
  operations table does not hold, \<open>payload_validate\<close> returns
  \<open>{ok: false, errors: [{path: "", message: "Unknown endpointId"}]}\<close>, \<open>execute_request\<close>
  returns \<open>{ok: false, error: "Unknown endpointId"}\<close> when execution is enabled and the
  execution-disabled answer otherwise, and \<open>endpoint_get\<close> and \<open>payload_generate\<close> return the
  empty mapping; none of them changes the engine. On an engine whose index has no tables
  (constructed and never refreshed), where no endpoint id is in the index,
  \<open>payload_validate\<close>, \<open>endpoint_get\<close> and \<open>payload_generate\<close> raise
  \<open>sqlite3.OperationalError\<close>, and so does \<open>execute_request\<close> when execution is enabled.
\<close>

theorem unknown_endpoint:
  "(eng_index_operations eng = Some table \<and> map_of table endpoint_id = None \<longrightarrow>
       payload_validate w iter_errors eng endpoint_id request
           = Inr (JObj [(''ok'', JBool False),
                        (''errors'', JArr [JObj [(''path'', JStr []), (''message'', JStr ''Unknown endpointId'')]])],
                  eng)
       \<and> execute_request w perform eng endpoint_id request auth_token
           = Inr (if execution_enabled w
                  then JObj [(''ok'', JBool False), (''error'', JStr ''Unknown endpointId'')]
                  else JObj [(''ok'', JBool False),
                             (''error'', JStr ''Execution disabled. Set OPENAPI_EXECUTION=1 to enable.'')],
                  eng)
       \<and> endpoint_get w render_contract eng endpoint_id full = Inr (JObj [], eng)
       \<and> payload_generate w x eng endpoint_id provided_fields = Inr (JObj [], eng))
   \<and> (eng_index_operations eng = None \<longrightarrow>
       payload_validate w iter_errors eng endpoint_id request = Inl OperationalError
       \<and> execute_request w perform eng endpoint_id request auth_token
           = (if execution_enabled w then Inl OperationalError
              else Inr (JObj [(''ok'', JBool False),
                              (''error'', JStr ''Execution disabled. Set OPENAPI_EXECUTION=1 to enable.'')],
                        eng))
       \<and> endpoint_get w render_contract eng endpoint_id full = Inl OperationalError
       \<and> payload_generate w x eng endpoint_id provided_fields = Inl OperationalError)"
  by (simp add: payload_validate_def execute_request_def endpoint_get_def payload_generate_def
      get_operation_by_endpoint_id_def)


theorem unknown_endpoint_witness:
  "eng_index_operations empty_engine = Some [] \<and> map_of [] ''pets:nope'' = (None :: (string \<times> json) list option)
   \<and> payload_generate closed_world sample_ext empty_engine ''pets:nope'' None = Inr (JObj [], empty_engine)
   \<and> endpoint_get closed_world (\<lambda>r s f. Inl KeyError) empty_engine ''pets:nope'' True = Inr (JObj [], empty_engine)
   \<and> payload_validate closed_world (\<lambda>d s b. []) empty_engine ''pets:nope'' []
       = Inr (JObj [(''ok'', JBool False),
                    (''errors'', JArr [JObj [(''path'', JStr []), (''message'', JStr ''Unknown endpointId'')]])],
              empty_engine)
   \<and> eng_index_operations new_engine = None
   \<and> payload_generate closed_world sample_ext new_engine ''pets:nope'' None = Inl OperationalError"
proof -
  have n: "eng_index_operations empty_engine = Some [] \<and> map_of [] ''pets:nope'' = (None :: (string \<times> json) list option)"
    by (simp add: empty_engine_def)
  have m: "eng_index_operations new_engine = None"
    by (simp add: new_engine_def)
  note a = unknown_endpoint [THEN conjunct1, THEN mp, OF n]
  note b = unknown_endpoint [THEN conjunct2, THEN mp, OF m]
  from a b n m show ?thesis
    by blast
qed

text \<open>
  On an empty index \<open>payload_validate\<close> does not answer \<open>{ok: false, error: "Unknown
  endpointId"}\<close>, and neither does \<open>execute_request\<close> while execution is disabled; and on
  the engine as constructed, whose index holds no endpoint id, \<open>payload_generate\<close> and
  \<open>endpoint_get\<close> do not return an empty mapping.
\<close>

theorem unknown_endpoint_counterexample:
  "map_of (case eng_index_operations empty_engine of Some table \<Rightarrow> table | None \<Rightarrow> []) ''pets:nope'' = None
   \<and> payload_validate closed_world (\<lambda>d s b. []) empty_engine ''pets:nope'' []
       \<noteq> Inr (JObj [(''ok'', JBool False), (''error'', JStr ''Unknown endpointId'')], empty_engine)
   \<and> execute_request closed_world (\<lambda>s r t. JNull) empty_engine ''pets:nope'' [] None
       \<noteq> Inr (JObj [(''ok'', JBool False), (''error'', JStr ''Unknown endpointId'')], empty_engine)
   \<and> eng_index_operations new_engine = None
   \<and> payload_generate closed_world sample_ext new_engine ''pets:nope'' None = Inl OperationalError
   \<and> endpoint_get closed_world (\<lambda>r s f. Inl KeyError) new_engine ''pets:nope'' True = Inl OperationalError
   \<and> payload_validate closed_world (\<lambda>d s b. []) new_engine ''pets:nope'' [] = Inl OperationalError"
  by (simp add: empty_engine_def new_engine_def closed_world_def payload_validate_def execute_request_def
      payload_generate_def endpoint_get_def get_operation_by_endpoint_id_def)


section \<open>The depth guard of the body generator\<close>

lemma fold_max_ge: "(a::nat) \<le> fold max xs a"
  by (induction xs arbitrary: a) (auto intro: order_trans [OF max.cobounded2])

lemma fold_max_mem: "(x::nat) \<in> set xs \<Longrightarrow> x \<le> fold max xs a"
proof (induction xs arbitrary: a)
  case Nil
  then show ?case by simp
next
  case (Cons y ys)
  show ?case
  proof (cases "x = y")
    case True
    have "x \<le> max y a" using True by simp
    also have "\<dots> \<le> fold max ys (max y a)" by (rule fold_max_ge)
    finally show ?thesis by simp
  next
    case False
    with Cons show ?thesis by simp
  qed
qed

lemma fold_max_le: "(a::nat) \<le> b \<Longrightarrow> \<forall>x\<in>set xs. x \<le> b \<Longrightarrow> fold max xs a \<le> b"
  by (induction xs arbitrary: a) auto

lemma list_max_ge: "x \<in> set xs \<Longrightarrow> x \<le> list_max xs"
  unfolding list_max_def by (rule fold_max_mem)

lemma list_max_le: "\<forall>x\<in>set xs. x \<le> b \<Longrightarrow> list_max xs \<le> b"
  unfolding list_max_def by (rule fold_max_le) simp_all

lemma jdepth_dict_value: "e \<in> set d \<Longrightarrow> Suc (jdepth (snd e)) \<le> jdepth (JObj d)"
  using list_max_ge [of "jdepth (snd e)" "map (\<lambda>kv. jdepth (snd kv)) d"] by auto

lemma jdepth_arr_value: "v \<in> set xs \<Longrightarrow> Suc (jdepth v) \<le> jdepth (JArr xs)"
  using list_max_ge [of "jdepth v" "map jdepth xs"] by auto

lemma jdepth_dict_le: "\<forall>e\<in>set d. Suc (jdepth (snd e)) \<le> b \<Longrightarrow> 0 < b \<Longrightarrow> jdepth (JObj d) \<le> b"
proof -
  assume a: "\<forall>e\<in>set d. Suc (jdepth (snd e)) \<le> b" and b: "0 < b"
  have "list_max (map (\<lambda>kv. jdepth (snd kv)) d) \<le> b - 1"
    by (rule list_max_le) (use a in force)
  then show ?thesis
    using b by simp
qed

lemma jdepth_arr_le: "\<forall>v\<in>set xs. Suc (jdepth v) \<le> b \<Longrightarrow> 0 < b \<Longrightarrow> jdepth (JArr xs) \<le> b"
proof -
  assume a: "\<forall>v\<in>set xs. Suc (jdepth v) \<le> b" and b: "0 < b"
  have "list_max (map jdepth xs) \<le> b - 1"
    by (rule list_max_le) (use a in force)
  then show ?thesis
    using b by simp
qed

lemma jdepth_dict_get: "Suc (jdepth (dict_get d k)) \<le> jdepth (JObj d)"
proof (cases "dict_get d k = JNull")
  case True
  then show ?thesis by simp
next
  case False
  from jdepth_dict_value [OF dict_get_entry [OF False]] show ?thesis by simp
qed

lemma lit_depth_entry: "e \<in> set d \<Longrightarrow> literal_depth e \<le> lit_depth (JObj d) \<and> lit_depth (snd e) \<le> lit_depth (JObj d)"
  using list_max_ge [of "max (literal_depth e) (lit_depth (snd e))"
      "map (\<lambda>kv. max (literal_depth kv) (lit_depth (snd kv))) d"]
  by auto

lemma lit_depth_item: "v \<in> set xs \<Longrightarrow> lit_depth v \<le> lit_depth (JArr xs)"
  using list_max_ge [of "lit_depth v" "map lit_depth xs"] by auto

lemma lit_depth_dict_le:
  "\<forall>e\<in>set d. literal_depth e \<le> b \<and> lit_depth (snd e) \<le> b \<Longrightarrow> lit_depth (JObj d) \<le> b"
proof -
  assume a: "\<forall>e\<in>set d. literal_depth e \<le> b \<and> lit_depth (snd e) \<le> b"
  have "list_max (map (\<lambda>kv. max (literal_depth kv) (lit_depth (snd kv))) d) \<le> b"
    by (rule list_max_le) (use a in auto)
  then show ?thesis
    by simp
qed

lemma lit_depth_subvalue: "v \<in> subvalues s \<Longrightarrow> lit_depth v \<le> lit_depth s"
proof (induction s rule: subvalues.induct)
  case (1 d)
  show ?case
  proof (cases "v = JObj d")
    case True
    then show ?thesis by simp
  next
    case False
    with "1.prems" obtain kv where kv: "kv \<in> set d" and v: "v \<in> subvalues (snd kv)"
      by auto
    have "lit_depth v \<le> lit_depth (snd kv)"
      using "1.IH" [OF kv v] .
    also have "\<dots> \<le> lit_depth (JObj d)"
      using lit_depth_entry [OF kv] by simp
    finally show ?thesis .
  qed
next
  case (2 xs)
  show ?case
  proof (cases "v = JArr xs")
    case True
    then show ?thesis by simp
  next
    case False
    with "2.prems" obtain x where x: "x \<in> set xs" and v: "v \<in> subvalues x"
      by auto
    have "lit_depth v \<le> lit_depth x"
      using "2.IH" [OF x v] .
    also have "\<dots> \<le> lit_depth (JArr xs)"
      using lit_depth_item [OF x] .
    finally show ?thesis .
  qed
qed auto

lemma lit_depth_entry_of:
  assumes "entry_of s e"
  shows "literal_depth e \<le> lit_depth s \<and> lit_depth (snd e) \<le> lit_depth s"
proof -
  obtain d where d: "JObj d \<in> subvalues s" and e: "e \<in> set d"
    using assms by (auto simp: entry_of_def)
  from lit_depth_entry [OF e] lit_depth_subvalue [OF d] show ?thesis
    by auto
qed

lemma lit_depth_made_of:
  assumes "made_of s e"
  shows "literal_depth e \<le> lit_depth s \<and> lit_depth (snd e) \<le> lit_depth s"
proof -
  consider (entry) "entry_of s e"
    | (type) "fst e = ''type''" "snd e = JStr ''object'' \<or> snd e = JStr ''array''"
    | (props) ps where "fst e = ''properties''" "snd e = JObj ps" "\<forall>p\<in>set ps. entry_of s p"
    | (req) names where "fst e = ''required''" "snd e = JArr (map JStr names)"
    using assms unfolding made_of_def by blast
  then show ?thesis
  proof cases
    case entry
    then show ?thesis by (rule lit_depth_entry_of)
  next
    case type
    then show ?thesis by (auto simp: literal_depth_def)
  next
    case props
    have "lit_depth (JObj ps) \<le> lit_depth s"
      by (rule lit_depth_dict_le) (use props lit_depth_entry_of in blast)
    then show ?thesis
      using props by (simp add: literal_depth_def)
  next
    case req
    have "list_max (map lit_depth (map JStr names)) \<le> 0"
      by (rule list_max_le) auto
    then have "lit_depth (JArr (map JStr names)) \<le> 0"
      by simp
    then show ?thesis
      using req by (simp add: literal_depth_def)
  qed
qed

lemma lit_depth_normalize: "lit_depth (JObj (normalize_schema s)) \<le> lit_depth s"
  by (rule lit_depth_dict_le) (use normalize_schema_made_of lit_depth_made_of in blast)

lemma literal_const: "jdepth (dict_get d ''const'') \<le> lit_depth (JObj d)"
proof (cases "dict_get d ''const'' = JNull")
  case True
  then show ?thesis by simp
next
  case False
  from lit_depth_entry [OF dict_get_entry [OF False]] show ?thesis
    by (simp add: literal_depth_def)
qed

lemma literal_default: "jdepth (dict_get d ''default'') \<le> lit_depth (JObj d)"
proof (cases "dict_get d ''default'' = JNull")
  case True
  then show ?thesis by simp
next
  case False
  from lit_depth_entry [OF dict_get_entry [OF False]] show ?thesis
    by (simp add: literal_depth_def)
qed

lemma literal_enum: "dict_get d ''enum'' = JArr (e # es) \<Longrightarrow> jdepth e \<le> lit_depth (JObj d)"
proof -
  assume a: "dict_get d ''enum'' = JArr (e # es)"
  then have "dict_get d ''enum'' \<noteq> JNull" by simp
  from lit_depth_entry [OF dict_get_entry [OF this]]
  have "jdepth (JArr (e # es)) - 1 \<le> lit_depth (JObj d)"
    by (simp add: literal_depth_def a)
  moreover have "Suc (jdepth e) \<le> jdepth (JArr (e # es))"
    by (rule jdepth_arr_value) simp
  ultimately show ?thesis by linarith
qed

lemma normalize_property_entry:
  assumes "dict_get (dict_or_empty (dict_get (normalize_schema s) ''properties'')) n = JObj ps"
  shows "entry_of s (n, JObj ps)"
proof -
  obtain pp where pp: "dict_get (normalize_schema s) ''properties'' = JObj pp"
    using assms by (cases "dict_get (normalize_schema s) ''properties''") (simp_all add: dict_get_def)
  have e: "(''properties'', JObj pp) \<in> set (normalize_schema s)"
    using dict_get_entry [of "normalize_schema s" "''properties''"] pp by simp
  have m: "made_of s (''properties'', JObj pp)"
    using normalize_schema_made_of e by blast
  have n: "(n, JObj ps) \<in> set pp"
    using dict_get_entry [of pp n] assms pp by simp
  from m show ?thesis
    unfolding made_of_def
  proof (elim disjE conjE exE)
    assume "entry_of s (''properties'', JObj pp)"
    then show ?thesis
      using entry_of_entry [of s "(''properties'', JObj pp)" pp "(n, JObj ps)"] n by simp
  next
    fix qs assume "snd (''properties'', JObj pp) = JObj qs" "\<forall>p\<in>set qs. entry_of s p"
    then show ?thesis
      using n by auto
  qed simp_all
qed

lemma infer_discriminator_value_depth: "jdepth (infer_discriminator_value d n) \<le> lit_depth (JObj d)"
proof (cases "dict_get (dict_or_empty (dict_get (normalize_schema (JObj d)) ''properties'')) n")
  case (JObj ps)
  have "entry_of (JObj d) (n, JObj ps)"
    using JObj by (rule normalize_property_entry)
  then have l: "lit_depth (JObj ps) \<le> lit_depth (JObj d)"
    using lit_depth_entry_of by fastforce
  have "jdepth (infer_discriminator_value d n) \<le> lit_depth (JObj ps)"
    unfolding infer_discriminator_value_def Let_def JObj json.case
    using literal_const [of ps] literal_default [of ps] literal_enum [of ps]
    by (auto split: json.splits list.splits)
  then show ?thesis
    using l by simp
qed (simp_all add: infer_discriminator_value_def)

lemma select_with_discriminator_value:
  assumes "select_with_discriminator discriminator first options provided = Inr (Some (sel, Some (n, v)))"
  shows "v \<noteq> JNull \<and>
         ((\<exists>p. provided = JObj p \<and> v = dict_get p n) \<or> jdepth v = 0
          \<or> (\<exists>d. JObj d \<in> set options \<and> v = infer_discriminator_value d n))"
proof (cases "dict_get discriminator ''propertyName''")
  case (JStr prop_name)
  show ?thesis
    using assms unfolding select_with_discriminator_def Let_def JStr json.case
    by (auto split: if_splits sum.splits option.splits json.splits dest: infer_discriminator_option_result)
qed (use assms in \<open>simp_all add: select_with_discriminator_def Let_def\<close>)

lemma select_for_key_value:
  assumes "select_for_key d key provided = Inr (Some (sel, Some (n, v)))"
  shows "v \<noteq> JNull \<and> ((\<exists>p. provided = JObj p \<and> v = dict_get p n) \<or> jdepth v \<le> lit_depth (JObj d))"
proof -
  obtain opt options where o: "dict_get d key = JArr (opt # options)"
    using assms by (auto simp: select_for_key_def split: json.splits list.splits)
  have e: "(key, JArr (opt # options)) \<in> set d"
    using dict_get_entry [of d key] o by simp
  have opts: "\<And>c. JObj c \<in> set (opt # options) \<Longrightarrow> lit_depth (JObj c) \<le> lit_depth (JObj d)"
  proof -
    fix c assume "JObj c \<in> set (opt # options)"
    then have "lit_depth (JObj c) \<le> lit_depth (JArr (opt # options))"
      by (rule lit_depth_item)
    also have "\<dots> \<le> lit_depth (JObj d)"
      using lit_depth_entry [OF e] by simp
    finally show "lit_depth (JObj c) \<le> lit_depth (JObj d)" .
  qed
  obtain disc where w: "select_with_discriminator disc opt (opt # options) provided = Inr (Some (sel, Some (n, v)))"
    using assms o unfolding select_for_key_def
    by (auto split: if_splits sum.splits option.splits json.splits list.splits)
  from select_with_discriminator_value [OF w]
  have v: "v \<noteq> JNull"
    and c: "(\<exists>p. provided = JObj p \<and> v = dict_get p n) \<or> jdepth v = 0
          \<or> (\<exists>c. JObj c \<in> set (opt # options) \<and> v = infer_discriminator_value c n)"
    by blast+
  from c have "(\<exists>p. provided = JObj p \<and> v = dict_get p n) \<or> jdepth v \<le> lit_depth (JObj d)"
  proof (elim disjE exE conjE)
    fix c assume c: "JObj c \<in> set (opt # options)" "v = infer_discriminator_value c n"
    have "jdepth v \<le> lit_depth (JObj c)"
      unfolding c by (rule infer_discriminator_value_depth)
    then show ?thesis
      using opts [OF c(1)] by simp
  qed simp_all
  with v show ?thesis by simp
qed

lemma select_union_schema_value:
  assumes "select_union_schema schema provided = Inr (sel, Some (n, v))"
  shows "v \<noteq> JNull \<and> ((\<exists>p. provided = JObj p \<and> v = dict_get p n) \<or> jdepth v \<le> lit_depth schema)"
proof (cases schema)
  case (JObj d)
  show ?thesis
    using assms select_for_key_value [of d _ provided sel n v]
    unfolding select_union_schema_def JObj json.case
    by (auto split: sum.splits option.splits)
qed (use assms in \<open>auto simp: select_union_schema_def\<close>)

lemma select_union_schema_lit:
  assumes "select_union_schema schema provided = Inr (sel, disc)"
  shows "lit_depth (JObj (normalize_schema sel)) \<le> lit_depth schema"
proof -
  have "lit_depth sel \<le> lit_depth schema"
    using select_union_schema_result [OF assms] lit_depth_subvalue [of sel schema]
    by (auto simp: list_max_def)
  with lit_depth_normalize [of sel] show ?thesis
    by simp
qed

lemma items_schema_lit: "lit_depth (items_schema_of s) \<le> lit_depth (JObj s)"
proof (cases "dict_get s ''items''")
  case (JObj i)
  then have "dict_get s ''items'' \<noteq> JNull" by simp
  from lit_depth_entry [OF dict_get_entry [OF this]] show ?thesis
    by (simp add: items_schema_of_def JObj)
qed (simp_all add: items_schema_of_def list_max_def)

lemma properties_lit: "lit_depth (JObj (dict_or_empty (dict_get s ''properties''))) \<le> lit_depth (JObj s)"
proof (cases "dict_get s ''properties''")
  case (JObj ps)
  then have "dict_get s ''properties'' \<noteq> JNull" by simp
  from lit_depth_entry [OF dict_get_entry [OF this]] show ?thesis
    by (simp add: JObj)
qed (simp_all add: list_max_def)

lemma generate_props_depth:
  assumes H: "\<And>schema provided pth unknowns fn v u.
                generate_from_schema x schema provided pth unknowns (depth + 1) fn = Inr (v, u) \<Longrightarrow>
                jdepth v \<le> max (nat (3 - depth) + lit_depth schema) (jdepth provided)"
    and l: "nat (3 - depth) + lit_depth (JObj properties) \<le> c"
    and p: "jdepth (JObj provided) \<le> Suc c"
  shows "generate_props x properties required provided pth depth names acc unknowns = Inr (out, u) \<Longrightarrow>
         \<forall>e\<in>set acc. jdepth (snd e) \<le> c \<Longrightarrow> \<forall>e\<in>set out. jdepth (snd e) \<le> c"
proof (induction names arbitrary: acc unknowns)
  case Nil
  then show ?case by simp
next
  case (Cons prop_name names)
  show ?case
  proof (cases "dict_get properties prop_name")
    case (JObj prop_schema)
    define unknowns' where "unknowns' = (if prop_name \<in> set required \<and> dict_get provided prop_name = JNull
                            then unknowns @ [pth @ ''.'' @ prop_name] else unknowns)"
    show ?thesis
    proof (cases "prop_name \<in> set required \<or> dict_get provided prop_name \<noteq> JNull")
      case True
      then obtain v u1 where g: "generate_from_schema x (JObj prop_schema) (dict_get provided prop_name)
                                    (pth @ ''.'' @ prop_name) unknowns' (depth + 1) (Some prop_name) = Inr (v, u1)"
        and r: "generate_props x properties required provided pth depth names (dict_set prop_name v acc) u1 = Inr (out, u)"
        using Cons.prems(1) JObj unfolding unknowns'_def
        by (auto simp: Let_def split: sum.splits)
      have "dict_get properties prop_name \<noteq> JNull"
        using JObj by simp
      from lit_depth_entry [OF dict_get_entry [OF this]]
      have l1: "lit_depth (JObj prop_schema) \<le> lit_depth (JObj properties)"
        by (simp add: JObj)
      have p1: "Suc (jdepth (dict_get provided prop_name)) \<le> jdepth (JObj provided)"
        by (rule jdepth_dict_get)
      have "jdepth v \<le> max (nat (3 - depth) + lit_depth (JObj prop_schema)) (jdepth (dict_get provided prop_name))"
        using g by (rule H)
      then have v: "jdepth v \<le> c"
        using l l1 p p1 by linarith
      have "\<forall>e\<in>set (dict_set prop_name v acc). jdepth (snd e) \<le> c"
        using Cons.prems(2) v dict_set_entries [of _ prop_name v acc] by fastforce
      with r show ?thesis
        by (rule Cons.IH)
    next
      case False
      then have "generate_props x properties required provided pth depth names acc unknowns' = Inr (out, u)"
        using Cons.prems(1) JObj unfolding unknowns'_def by (simp add: Let_def)
      then show ?thesis
        using Cons.prems(2) by (rule Cons.IH)
    qed
  qed (use Cons in simp_all)
qed

lemma generate_items_depth:
  assumes H: "\<And>schema provided pth unknowns fn v u.
                generate_from_schema x schema provided pth unknowns (depth + 1) fn = Inr (v, u) \<Longrightarrow>
                jdepth v \<le> max (nat (3 - depth) + lit_depth schema) (jdepth provided)"
    and l: "nat (3 - depth) + lit_depth items_schema \<le> c"
  shows "generate_items x items_schema pth depth field_name idx items unknowns = Inr (vs, u) \<Longrightarrow>
         \<forall>item\<in>set items. jdepth item \<le> c \<Longrightarrow> \<forall>v\<in>set vs. jdepth v \<le> c"
proof (induction items arbitrary: idx unknowns vs)
  case Nil
  then show ?case by simp
next
  case (Cons item items)
  obtain v u1 vs' where g: "generate_from_schema x items_schema item (pth @ ''['' @ str_nat idx @ '']'') unknowns
             (depth + 1) field_name = Inr (v, u1)"
    and r: "generate_items x items_schema pth depth field_name (idx + 1) items u1 = Inr (vs', u)"
    and vs: "vs = v # vs'"
    using Cons.prems(1) by (auto split: sum.splits)
  have "jdepth v \<le> max (nat (3 - depth) + lit_depth items_schema) (jdepth item)"
    using g by (rule H)
  then have v: "jdepth v \<le> c"
    using l Cons.prems(2) by auto
  have "\<forall>v\<in>set vs'. jdepth v \<le> c"
    using r by (rule Cons.IH) (use Cons.prems(2) in simp)
  with v vs show ?case by simp
qed

lemma emit_discriminator_depth:
  assumes "emit_discriminator x properties discriminator acc = Inr out"
    and "\<And>n v. discriminator = Some (n, v) \<Longrightarrow> v \<noteq> JNull \<and> jdepth v \<le> c"
    and "\<forall>e\<in>set acc. jdepth (snd e) \<le> c"
  shows "\<forall>e\<in>set out. jdepth (snd e) \<le> c"
proof (cases discriminator)
  case None
  then show ?thesis
    using assms by (simp add: emit_discriminator_def)
next
  case (Some a)
  obtain n v where a: "a = (n, v)" by (cases a)
  have v: "v \<noteq> JNull" "jdepth v \<le> c"
    using assms(2) [of n v] Some a by simp_all
  have s: "\<forall>e\<in>set (dict_set n v acc). jdepth (snd e) \<le> c"
    using assms(3) v dict_set_entries [of _ n v acc] by fastforce
  have "out = acc \<or> out = dict_set n v acc"
    using assms(1) v(1) unfolding emit_discriminator_def Some a
    by (auto split: if_splits json.splits)
  then show ?thesis
    using s assms(3) by blast
qed

lemma generate_object_depth:
  assumes H: "\<And>schema provided pth unknowns fn v u.
                generate_from_schema x schema provided pth unknowns (depth + 1) fn = Inr (v, u) \<Longrightarrow>
                jdepth v \<le> max (nat (3 - depth) + lit_depth schema) (jdepth provided)"
    and g: "generate_object x s provided pth unknowns discriminator depth = Inr (v, u)"
    and d: "\<And>n v. discriminator = Some (n, v) \<Longrightarrow> v \<noteq> JNull \<and> jdepth v \<le> c"
    and l: "nat (3 - depth) + lit_depth (JObj s) \<le> c"
    and p: "jdepth (JObj provided) \<le> Suc c"
  shows "jdepth v \<le> Suc c"
proof -
  define properties where "properties = dict_or_empty (dict_get s ''properties'')"
  obtain acc out where r: "generate_props x properties (str_items (dict_get s ''required'')) provided pth depth
                                (sort (map fst properties)) [] unknowns = Inr (acc, u)"
    and e: "emit_discriminator x properties discriminator acc = Inr out"
    and v: "v = JObj out"
    using g unfolding properties_def
    by (subst (asm) generate_object.simps) (auto simp: Let_def split: sum.splits)
  have l1: "nat (3 - depth) + lit_depth (JObj properties) \<le> c"
    using l properties_lit [of s] unfolding properties_def by linarith
  have "\<forall>e\<in>set ([] :: (string \<times> json) list). jdepth (snd e) \<le> c"
    by simp
  with H l1 p r have "\<forall>e\<in>set acc. jdepth (snd e) \<le> c"
    by (rule generate_props_depth)
  with e d have "\<forall>e\<in>set out. jdepth (snd e) \<le> c"
    by (rule emit_discriminator_depth)
  then show ?thesis
    unfolding v by (intro jdepth_dict_le) simp_all
qed

lemma generate_from_schema_step:
  assumes H: "\<And>schema provided pth unknowns fn v u.
                generate_from_schema x schema provided pth unknowns (depth + 1) fn = Inr (v, u) \<Longrightarrow>
                jdepth v \<le> max (nat (3 - depth) + lit_depth schema) (jdepth provided)"
    and g: "generate_from_schema x schema provided pth unknowns depth field_name = Inr (v, u)"
  shows "jdepth v \<le> max (nat (4 - depth) + lit_depth schema) (jdepth provided)"
proof (cases "depth > MAX_DEPTH")
  case True
  then have "v = JStr ''<recursion_limit>''"
    using g by (subst (asm) generate_from_schema.simps) simp
  then show ?thesis by simp
next
  case False
  then have d3: "depth \<le> 3"
    by (simp add: MAX_DEPTH_def)
  then have n4: "nat (4 - depth) = Suc (nat (3 - depth))"
    by linarith
  obtain sel disc where sel: "select_union_schema schema provided = Inr (sel, disc)"
    using g False by (subst (asm) generate_from_schema.simps) (auto split: sum.splits)
  define s where "s = normalize_schema sel"
  define c where "c = max (nat (3 - depth) + lit_depth schema) (jdepth provided - 1)"
  have ls: "lit_depth (JObj s) \<le> lit_depth schema"
    unfolding s_def using sel by (rule select_union_schema_lit)
  have c: "max (nat (4 - depth) + lit_depth schema) (jdepth provided) \<le> Suc c"
       "Suc c \<le> max (nat (4 - depth) + lit_depth schema) (jdepth provided)"
    unfolding c_def n4 by linarith+
  have lc: "nat (3 - depth) + lit_depth (JObj s) \<le> c"
    unfolding c_def using ls by linarith
  have dv: "\<And>n v. disc = Some (n, v) \<Longrightarrow> v \<noteq> JNull \<and> jdepth v \<le> c"
  proof -
    fix n v assume "disc = Some (n, v)"
    with sel have "select_union_schema schema provided = Inr (sel, Some (n, v))"
      by simp
    from select_union_schema_value [OF this]
    have v: "v \<noteq> JNull" and w: "(\<exists>p. provided = JObj p \<and> v = dict_get p n) \<or> jdepth v \<le> lit_depth schema"
      by blast+
    from w have "jdepth v \<le> c"
    proof (elim disjE exE conjE)
      fix p assume p: "provided = JObj p" "v = dict_get p n"
      have "Suc (jdepth v) \<le> jdepth provided"
        unfolding p by (rule jdepth_dict_get)
      then show ?thesis
        unfolding c_def by linarith
    next
      assume "jdepth v \<le> lit_depth schema"
      then show ?thesis
        unfolding c_def by linarith
    qed
    with v show "v \<noteq> JNull \<and> jdepth v \<le> c" by simp
  qed
  have obj: "\<And>p. generate_object x s p pth unknowns disc depth = Inr (v, u) \<Longrightarrow> jdepth (JObj p) \<le> Suc c \<Longrightarrow>
               jdepth v \<le> Suc c"
    using H _ dv lc by (rule generate_object_depth)
  have body: "(if provided \<noteq> JNull then
                (case provided of
                   JObj p \<Rightarrow>
                     (if dict_get s ''type'' = JStr ''object''
                      then generate_object x s p pth unknowns disc depth
                      else Inr (provided, unknowns))
                 | JArr items \<Rightarrow>
                     (if dict_get s ''type'' = JStr ''array''
                      then (case generate_items x (items_schema_of s) pth depth field_name 0 items unknowns of
                              Inl e \<Rightarrow> Inl e
                            | Inr (vs, u) \<Rightarrow> Inr (JArr vs, u))
                      else Inr (provided, unknowns))
                 | _ \<Rightarrow> Inr (provided, unknowns))
              else if dict_has s ''const'' then Inr (dict_get s ''const'', unknowns)
              else if dict_has s ''default'' then Inr (dict_get s ''default'', unknowns)
              else (case dict_get s ''enum'' of
                      JArr (first # enum) \<Rightarrow> Inr (first, unknowns)
                    | _ \<Rightarrow>
                        if dict_get s ''type'' = JStr ''object''
                        then generate_object x s [] pth unknowns disc depth
                        else if dict_get s ''type'' = JStr ''array'' then
                          (case generate_from_schema x (items_schema_of s) JNull (pth @ ''[0]'') unknowns
                                  (depth + 1) field_name of
                             Inl e \<Rightarrow> Inl e
                           | Inr (item_value, u) \<Rightarrow> Inr (JArr [item_value], u))
                        else (case guess_value x
                                     (case field_name of Some f \<Rightarrow> (if f \<noteq> [] then f else pth) | None \<Rightarrow> pth) s of
                                Inl e \<Rightarrow> Inl e
                              | Inr guess \<Rightarrow>
                                  if guess \<noteq> JNull then Inr (guess, unknowns)
                                  else Inr (type_fallback (dict_get s ''type''), unknowns)))) = Inr (v, u)"
    using g False sel unfolding s_def
    by (subst (asm) generate_from_schema.simps) (simp add: Let_def)
  have "jdepth v \<le> Suc c"
  proof (cases "provided \<noteq> JNull")
    case True
    show ?thesis
    proof (cases provided)
      case (JObj p)
      show ?thesis
      proof (cases "dict_get s ''type'' = JStr ''object''")
        case True
        then have "generate_object x s p pth unknowns disc depth = Inr (v, u)"
          using body JObj by simp
        then show ?thesis
          by (rule obj) (use c(1) JObj in simp)
      next
        case False
        then have "v = provided"
          using body JObj by simp
        then show ?thesis
          using c(1) by simp
      qed
    next
      case (JArr items)
      show ?thesis
      proof (cases "dict_get s ''type'' = JStr ''array''")
        case True
        then obtain vs where r: "generate_items x (items_schema_of s) pth depth field_name 0 items unknowns = Inr (vs, u)"
          and v: "v = JArr vs"
          using body JArr by (auto split: sum.splits)
        have li: "nat (3 - depth) + lit_depth (items_schema_of s) \<le> c"
          using lc items_schema_lit [of s] by linarith
        have it: "\<forall>item\<in>set items. jdepth item \<le> c"
        proof
          fix item assume "item \<in> set items"
          then have "Suc (jdepth item) \<le> jdepth provided"
            unfolding JArr by (rule jdepth_arr_value)
          then show "jdepth item \<le> c"
            unfolding c_def by linarith
        qed
        have "\<forall>v\<in>set vs. jdepth v \<le> c"
          using H li r it by (rule generate_items_depth)
        then show ?thesis
          unfolding v by (intro jdepth_arr_le) simp_all
      next
        case False
        then have "v = provided"
          using body JArr by simp
        then show ?thesis
          using c(1) by simp
      qed
    qed (use True body c(1) in auto)
  next
    case False
    then have pn: "provided = JNull" by simp
    have lits: "jdepth (dict_get s ''const'') \<le> Suc c" "jdepth (dict_get s ''default'') \<le> Suc c"
      "\<And>e es. dict_get s ''enum'' = JArr (e # es) \<Longrightarrow> jdepth e \<le> Suc c"
      using literal_const [of s] literal_default [of s] literal_enum [of s] lc by (linarith | fastforce)+
    show ?thesis
    proof (cases "dict_has s ''const''")
      case True
      then show ?thesis
        using body pn lits(1) by simp
    next
      case nc: False
      show ?thesis
      proof (cases "dict_has s ''default''")
        case True
        then show ?thesis
          using body pn nc lits(2) by simp
      next
        case nd: False
        show ?thesis
        proof (cases "\<exists>e es. dict_get s ''enum'' = JArr (e # es)")
          case True
          then obtain e es where e: "dict_get s ''enum'' = JArr (e # es)" by blast
          then have "v = e"
            using body pn nc nd by simp
          then show ?thesis
            using lits(3) [OF e] by simp
        next
          case ne: False
          have rest: "(if dict_get s ''type'' = JStr ''object''
                        then generate_object x s [] pth unknowns disc depth
                        else if dict_get s ''type'' = JStr ''array'' then
                          (case generate_from_schema x (items_schema_of s) JNull (pth @ ''[0]'') unknowns
                                  (depth + 1) field_name of
                             Inl e \<Rightarrow> Inl e
                           | Inr (item_value, u) \<Rightarrow> Inr (JArr [item_value], u))
                        else (case guess_value x
                                     (case field_name of Some f \<Rightarrow> (if f \<noteq> [] then f else pth) | None \<Rightarrow> pth) s of
                                Inl e \<Rightarrow> Inl e
                              | Inr guess \<Rightarrow>
                                  if guess \<noteq> JNull then Inr (guess, unknowns)
                                  else Inr (type_fallback (dict_get s ''type''), unknowns))) = Inr (v, u)"
            using body pn nc nd ne by (auto split: json.splits list.splits)
          show ?thesis
          proof (cases "dict_get s ''type'' = JStr ''object''")
            case True
            then have "generate_object x s [] pth unknowns disc depth = Inr (v, u)"
              using rest by simp
            then show ?thesis
              by (rule obj) (simp add: list_max_def)
          next
            case no: False
            show ?thesis
            proof (cases "dict_get s ''type'' = JStr ''array''")
              case True
              then obtain item where r: "generate_from_schema x (items_schema_of s) JNull (pth @ ''[0]'') unknowns
                                  (depth + 1) field_name = Inr (item, u)"
                and v: "v = JArr [item]"
                using rest no by (auto split: sum.splits)
              have "jdepth item \<le> max (nat (3 - depth) + lit_depth (items_schema_of s)) (jdepth JNull)"
                using r by (rule H)
              then have "jdepth item \<le> c"
                using lc items_schema_lit [of s] by simp
              then show ?thesis
                unfolding v by (intro jdepth_arr_le) simp_all
            next
              case na: False
              have "jdepth v = 0"
                using rest no na
                by (auto simp: guess_value_def guess_string_def Let_def type_fallback_def
                         split: sum.splits if_splits)
              then show ?thesis by simp
            qed
          qed
        qed
      qed
    qed
  qed
  then show ?thesis
    using c(2) by linarith
qed

lemma generate_from_schema_depth:
  "generate_from_schema x schema provided pth unknowns depth field_name = Inr (v, u) \<Longrightarrow>
   jdepth v \<le> max (nat (4 - depth) + lit_depth schema) (jdepth provided)"
proof (induction "nat (4 - depth)" arbitrary: depth schema provided pth unknowns field_name v u)
  case 0
  then have "depth > MAX_DEPTH"
    by (simp add: MAX_DEPTH_def)
  then have "v = JStr ''<recursion_limit>''"
    using "0.prems" by (subst (asm) generate_from_schema.simps) simp
  then show ?case by simp
next
  case (Suc n)
  have n: "n = nat (4 - (depth + 1))"
    using Suc.hyps(2) by linarith
  have "\<And>schema provided pth unknowns fn v u.
                generate_from_schema x schema provided pth unknowns (depth + 1) fn = Inr (v, u) \<Longrightarrow>
                jdepth v \<le> max (nat (3 - depth) + lit_depth schema) (jdepth provided)"
    using Suc.hyps(1) [OF n] by (simp add: algebra_simps)
  then show ?case
    using Suc.prems by (rule generate_from_schema_step)
qed

text \<open>
  C2 (payloads.py, \<open>_generate_from_schema\<close>, \<open>MAX_DEPTH\<close>). \<open>MAX_DEPTH\<close> is 3, and for every
  schema, provided value, path, list of unknowns and field name, a call of the generator at
  a depth above 3 returns the sentinel \<open>"<recursion_limit>"\<close> and leaves the unknowns as they
  are. Consequently the generator nests at most four containers of its own: a value generated
  at depth \<open>d\<close> is nested at most \<open>4 - d\<close> levels deeper than the deepest literal (\<open>const\<close>,
  \<open>default\<close>, \<open>enum\<close> member) of the schema, unless it is no deeper than the provided value.
  For the body (depth 0): when the literals of the schema are scalars and the provided value
  has at most 4 nesting levels, the body has at most 4 nesting levels.
\<close>

theorem depth_guard:
  "MAX_DEPTH = 3 \<and>
   (3 < depth \<longrightarrow>
      generate_from_schema x schema provided pth unknowns depth field_name
        = Inr (JStr ''<recursion_limit>'', unknowns)) \<and>
   (generate_from_schema x schema provided pth unknowns depth field_name = Inr (v, u) \<longrightarrow>
      jdepth v \<le> max (nat (4 - depth) + lit_depth schema) (jdepth provided)) \<and>
   (build_body x schema provided = Inr (body, us) \<longrightarrow>
      jdepth body \<le> max (4 + lit_depth schema) (jdepth provided) \<and>
      (lit_depth schema = 0 \<and> jdepth provided \<le> 4 \<longrightarrow> jdepth body \<le> 4))"
proof (intro conjI impI)
  show "MAX_DEPTH = 3"
    by (rule MAX_DEPTH_def)
next
  assume "3 < depth"
  then show "generate_from_schema x schema provided pth unknowns depth field_name
        = Inr (JStr ''<recursion_limit>'', unknowns)"
    by (subst generate_from_schema.simps) (simp add: MAX_DEPTH_def)
next
  assume "generate_from_schema x schema provided pth unknowns depth field_name = Inr (v, u)"
  then show "jdepth v \<le> max (nat (4 - depth) + lit_depth schema) (jdepth provided)"
    by (rule generate_from_schema_depth)
next
  assume b: "build_body x schema provided = Inr (body, us)"
  show g: "jdepth body \<le> max (4 + lit_depth schema) (jdepth provided)"
  proof (cases "schema = JNull")
    case True
    then show ?thesis
      using b by (simp add: build_body_def)
  next
    case False
    then have "generate_from_schema x schema provided ''body'' [] 0 (Some ''body'') = Inr (body, us)"
      using b by (simp add: build_body_def)
    from generate_from_schema_depth [OF this] show ?thesis
      by simp
  qed
  assume "lit_depth schema = 0 \<and> jdepth provided \<le> 4"
  then show "jdepth body \<le> 4"
    using g by simp
qed

theorem depth_guard_witness:
  "generate_from_schema sample_ext (chain 6) JNull ''body'' [] 4 (Some ''body'')
     = Inr (JStr ''<recursion_limit>'', []) \<and>
   build_body sample_ext (chain 6) JNull =
     Inr (JObj [(''next'', JObj [(''next'', JObj [(''next'', JObj [(''next'', JStr ''<recursion_limit>'')])])])],
          [''body.next'', ''body.next.next'', ''body.next.next.next'', ''body.next.next.next.next'']) \<and>
   jdepth (JObj [(''next'', JObj [(''next'', JObj [(''next'', JObj [(''next'', JStr ''<recursion_limit>'')])])])]) \<le> 4"
proof -
  have b: "build_body sample_ext (chain 6) JNull =
     Inr (JObj [(''next'', JObj [(''next'', JObj [(''next'', JObj [(''next'', JStr ''<recursion_limit>'')])])])],
          [''body.next'', ''body.next.next'', ''body.next.next.next'', ''body.next.next.next.next''])"
    by code_simp
  have l: "lit_depth (chain 6) = 0 \<and> jdepth JNull \<le> 4"
    by code_simp
  have t: "(3::int) < 4"
    by simp
  note d = depth_guard [where depth = 4 and x = sample_ext and schema = "chain 6" and provided = JNull
      and pth = "''body''" and unknowns = "[]" and field_name = "Some ''body''"
      and body = "JObj [(''next'', JObj [(''next'', JObj [(''next'', JObj [(''next'', JStr ''<recursion_limit>'')])])])]"
      and us = "[''body.next'', ''body.next.next'', ''body.next.next.next'', ''body.next.next.next.next'']"]
  from d have "generate_from_schema sample_ext (chain 6) JNull ''body'' [] 4 (Some ''body'')
     = Inr (JStr ''<recursion_limit>'', [])"
    using t by blast
  moreover from d have "jdepth (JObj [(''next'', JObj [(''next'', JObj [(''next'', JObj [(''next'', JStr ''<recursion_limit>'')])])])]) \<le> 4"
    using b l by blast
  ultimately show ?thesis
    using b by blast
qed

theorem depth_guard_counterexample:
  "build_body sample_ext (meta_chain 6) JNull =
     Inr (JObj [(''meta'', JObj [(''a'', JObj [(''b'', JInt 1)])]),
                (''next'', JObj [(''meta'', JObj [(''a'', JObj [(''b'', JInt 1)])]),
                                 (''next'', JObj [(''meta'', JObj [(''a'', JObj [(''b'', JInt 1)])]),
                                                  (''next'', JObj [(''meta'', JStr ''<recursion_limit>''),
                                                                   (''next'', JStr ''<recursion_limit>'')])])])],
          [''body.meta'', ''body.next'', ''body.next.meta'', ''body.next.next'', ''body.next.next.meta'',
           ''body.next.next.next'', ''body.next.next.next.meta'', ''body.next.next.next.next'']) \<and>
   jdepth (JObj [(''meta'', JObj [(''a'', JObj [(''b'', JInt 1)])]),
                (''next'', JObj [(''meta'', JObj [(''a'', JObj [(''b'', JInt 1)])]),
                                 (''next'', JObj [(''meta'', JObj [(''a'', JObj [(''b'', JInt 1)])]),
                                                  (''next'', JObj [(''meta'', JStr ''<recursion_limit>''),
                                                                   (''next'', JStr ''<recursion_limit>'')])])])]) = 5"
  by code_simp


section \<open>Loading the persisted cache\<close>

















section \<open>Payload generation is as deterministic as the libraries\<close>












end
